theory Spec2Isabelle
  imports Complex_Main "HOL-Library.Word"
begin


section \<open>Tile requests and the cache key\<close>

text \<open>
  \<^verbatim>\<open>TileRequest\<close> of \<^verbatim>\<open>internal/tiler/gpu_processor.go\<close>. Go's \<^verbatim>\<open>int\<close> fields are
  modelled as \<open>int\<close>: every 64-bit value is an \<open>int\<close>, so what holds for all \<open>int\<close>
  holds for the values the program can hold. The field names carry the prefix
  \<open>req\<close> because \<^verbatim>\<open>Width\<close> and \<^verbatim>\<open>Height\<close> are fields of the response as well.
\<close>

record TileRequest =
  SlideID :: string
  Layer :: int
  X :: int
  Y :: int
  Z :: int
  req_Width :: int
  req_Height :: int
  Format :: string
  Quality :: int

text \<open>
  The verb \<^verbatim>\<open>%d\<close> of \<^verbatim>\<open>fmt.Sprintf\<close>: the decimal digits of the magnitude, most
  significant first, after a minus sign when the number is negative.
\<close>

definition digit_char :: "nat \<Rightarrow> char" where
  "digit_char d = char_of (48 + d)"

function digits10 :: "nat \<Rightarrow> string" where
  "digits10 n = (if n < 10 then [digit_char n] else digits10 (n div 10) @ [digit_char (n mod 10)])"
  by pat_completeness auto
termination
  by (relation "measure id") auto

declare digits10.simps [simp del]

definition formatInt :: "int \<Rightarrow> string" where
  "formatInt i = (if i < 0 then CHR ''-'' # digits10 (nat (- i)) else digits10 (nat i))"

text \<open>
  The first statement of \<^verbatim>\<open>ProcessTile\<close>:
  \<^verbatim>\<open>cacheKey := fmt.Sprintf("%s:%d:%d:%d:%d", req.SlideID, req.Layer, req.X, req.Y, req.Z)\<close>.
\<close>

definition cacheKey :: "TileRequest \<Rightarrow> string" where
  "cacheKey req =
     SlideID req @ '':'' @ formatInt (Layer req) @ '':'' @ formatInt (X req) @ '':''
       @ formatInt (Y req) @ '':'' @ formatInt (Z req)"

text \<open>The number a string of decimal digits stands for.\<close>

definition digit_val :: "char \<Rightarrow> nat" where
  "digit_val c = of_char c - 48"

definition digits_val :: "string \<Rightarrow> nat" where
  "digits_val ds = foldl (\<lambda>a c. 10 * a + digit_val c) 0 ds"


section \<open>Byte slices\<close>

text \<open>
  A \<^verbatim>\<open>[]byte\<close> is a reference to an array of bytes, and two slices may refer to the
  same array. The store maps addresses to arrays; \<open>fresh\<close> is the next address that
  \<^verbatim>\<open>make\<close> or \<^verbatim>\<open>append\<close> hands out. A slice value is \<open>None\<close> for \<^verbatim>\<open>nil\<close> and
  \<open>Some a\<close> for a slice over the whole array at \<open>a\<close> (the program never re-slices
  the data of a response).
\<close>

type_synonym byte = "8 word"
type_synonym addr = nat
type_synonym int64 = "64 word"
type_synonym uint64 = "64 word"

record heap =
  arrays :: "addr \<Rightarrow> byte list"
  fresh :: addr

definition alloc :: "byte list \<Rightarrow> heap \<Rightarrow> addr \<times> heap" where
  "alloc bs h = (fresh h, h\<lparr>arrays := (arrays h)(fresh h := bs), fresh := Suc (fresh h)\<rparr>)"

definition bytes :: "heap \<Rightarrow> addr option \<Rightarrow> byte list" where
  "bytes h s = (case s of None \<Rightarrow> [] | Some a \<Rightarrow> arrays h a)"

definition len :: "heap \<Rightarrow> addr option \<Rightarrow> nat" where
  "len h s = length (bytes h s)"

text \<open>
  \<^verbatim>\<open>append([]byte(nil), s...)\<close>: appending nothing to \<^verbatim>\<open>nil\<close> leaves \<^verbatim>\<open>nil\<close>; anything
  else is copied into a new array.
\<close>

definition append_nil :: "heap \<Rightarrow> addr option \<Rightarrow> addr option \<times> heap" where
  "append_nil h s =
     (if bytes h s = [] then (None, h)
      else (case alloc (bytes h s) h of (a, h') \<Rightarrow> (Some a, h')))"

text \<open>A slice is allocated when its array has been handed out already.\<close>

definition allocated :: "heap \<Rightarrow> addr option \<Rightarrow> bool" where
  "allocated h s \<longleftrightarrow> (case s of None \<Rightarrow> True | Some a \<Rightarrow> a < fresh h)"

section \<open>The tile cache\<close>

text \<open>
  \<^verbatim>\<open>TileResponse\<close> (\<^verbatim>\<open>gpu_processor.go\<close>) and \<^verbatim>\<open>cacheEntry\<close>, \<^verbatim>\<open>TileCache\<close>
  (\<^verbatim>\<open>cache.go\<close>). The entry's \<^verbatim>\<open>timestamp\<close> is written by \<^verbatim>\<open>Set\<close> and read nowhere;
  it is left out. \<^verbatim>\<open>maxSize\<close>, \<^verbatim>\<open>currentSize\<close> and \<^verbatim>\<open>size\<close> are \<^verbatim>\<open>int64\<close>, the
  counters are \<^verbatim>\<open>uint64\<close>: 64-bit words, whose arithmetic wraps around as Go's does.

  The source keeps a \<^verbatim>\<open>container/list\<close> of entries, most recently used at the front,
  and a map \<^verbatim>\<open>items\<close> from each key to its list element. Every operation updates both
  together, so the map holds exactly the keys of the list, one element each:
  \<open>lru\<close> is the list, and the lookup \<^verbatim>\<open>c.items[key]\<close> is the search of the list for
  the key.
\<close>

record TileResponse =
  Data :: "addr option"
  resp_Width :: int
  resp_Height :: int
  ContentType :: string
  CacheKey :: string

record cacheEntry =
  entry_key :: string
  entry_value :: TileResponse
  entry_size :: int64

record TileCache =
  maxSize :: int64
  currentSize :: int64
  lru :: "cacheEntry list"
  hits :: uint64
  misses :: uint64

definition NewTileCache :: "int64 \<Rightarrow> TileCache" where
  "NewTileCache maxSizeBytes =
     \<lparr>maxSize = maxSizeBytes, currentSize = 0, lru = [], hits = 0, misses = 0\<rparr>"

definition items :: "TileCache \<Rightarrow> string \<Rightarrow> cacheEntry option" where
  "items c k = find (\<lambda>e. entry_key e = k) (lru c)"

text \<open>
  \<^verbatim>\<open>Get\<close>: a miss counts and changes nothing else; a hit counts, moves the element to
  the front and returns a new response whose data is a copy of the entry's.
\<close>

definition Get :: "string \<Rightarrow> heap \<Rightarrow> TileCache \<Rightarrow> TileResponse option \<times> heap \<times> TileCache" where
  "Get k h c =
     (case items c k of
        None \<Rightarrow> (None, h, c\<lparr>misses := misses c + 1\<rparr>)
      | Some entry \<Rightarrow>
          (case append_nil h (Data (entry_value entry)) of
             (d, h') \<Rightarrow>
               (Some \<lparr>Data = d,
                      resp_Width = resp_Width (entry_value entry),
                      resp_Height = resp_Height (entry_value entry),
                      ContentType = ContentType (entry_value entry),
                      CacheKey = CacheKey (entry_value entry)\<rparr>,
                h',
                c\<lparr>hits := hits c + 1, lru := entry # remove1 entry (lru c)\<rparr>)))"

text \<open>\<^verbatim>\<open>evictOldest\<close> removes the element at the back of the list.\<close>

definition evictOldest :: "TileCache \<Rightarrow> TileCache" where
  "evictOldest c =
     (if lru c = [] then c
      else c\<lparr>lru := butlast (lru c), currentSize := currentSize c - entry_size (last (lru c))\<rparr>)"

text \<open>
  The loop of \<^verbatim>\<open>Set\<close>:
  \<^verbatim>\<open>for c.currentSize+size > c.maxSize && c.lru.Len() > 0 { c.evictOldest() }\<close>,
  a signed comparison of 64-bit values.
\<close>

function evict_until :: "int64 \<Rightarrow> TileCache \<Rightarrow> TileCache" where
  "evict_until sz c =
     (if maxSize c <s currentSize c + sz \<and> lru c \<noteq> [] then evict_until sz (evictOldest c) else c)"
  by pat_completeness auto
termination
  by (relation "measure (\<lambda>(sz, c). length (lru c))") (auto simp: evictOldest_def)

declare evict_until.simps [simp del]

text \<open>
  \<^verbatim>\<open>Set\<close>: the size is \<^verbatim>\<open>int64(len(value.Data))\<close>. An existing key has its entry
  replaced and moved to the front, and \<^verbatim>\<open>currentSize\<close> adjusted; nothing is evicted
  on that path. A new key first evicts, then is pushed at the front. The entry keeps
  the response it was given: its data is the caller's array, not a copy.
\<close>

definition Set :: "string \<Rightarrow> TileResponse \<Rightarrow> heap \<Rightarrow> TileCache \<Rightarrow> TileCache" where
  "Set k v h c =
     (let sz = (of_nat (len h (Data v)) :: int64) in
      case items c k of
        Some entry \<Rightarrow>
          c\<lparr>currentSize := currentSize c - entry_size entry + sz,
            lru := entry\<lparr>entry_value := v, entry_size := sz\<rparr> # remove1 entry (lru c)\<rparr>
      | None \<Rightarrow>
          (let c' = evict_until sz c in
           c'\<lparr>lru := \<lparr>entry_key = k, entry_value = v, entry_size = sz\<rparr> # lru c',
              currentSize := currentSize c' + sz\<rparr>))"

text \<open>\<^verbatim>\<open>Clear\<close> replaces the map and the list and zeroes \<^verbatim>\<open>currentSize\<close>; that is all.\<close>

definition Clear :: "TileCache \<Rightarrow> TileCache" where
  "Clear c = c\<lparr>lru := [], currentSize := 0\<rparr>"

definition Stats :: "TileCache \<Rightarrow> uint64 \<times> uint64 \<times> int64 \<times> nat" where
  "Stats c = (hits c, misses c, currentSize c, length (lru c))"

text \<open>
  A \<^verbatim>\<open>float64\<close> result, as far as the hit rate needs it: not-a-number, infinity, or a
  finite value (\<open>Finite x\<close> stands for the \<^verbatim>\<open>float64\<close> nearest to \<open>x\<close>; rounding is not
  modelled). \<open>float64_div\<close> is \<^verbatim>\<open>float64(a) / float64(b)\<close> for unsigned integers: IEEE 754
  division does not trap, zero by zero is NaN and a positive number by zero is infinity.
\<close>

datatype float64 = NaN | PosInf | Finite real

definition float64_div :: "uint64 \<Rightarrow> uint64 \<Rightarrow> float64" where
  "float64_div a b =
     (if b = 0 then (if a = 0 then NaN else PosInf)
      else Finite (real (unat a) / real (unat b)))"

definition HitRate :: "TileCache \<Rightarrow> float64" where
  "HitRate c =
     (let total = hits c + misses c in
      if total = 0 then Finite 0 else float64_div (hits c) total)"

text \<open>
  \<^verbatim>\<open>handleSystemStats\<close> (\<^verbatim>\<open>internal/api/handler.go\<close>). \<open>system_stats\<close> is the
  \<^verbatim>\<open>cache\<close> object of the statistics, built from \<^verbatim>\<open>Stats()\<close>; the hit rate is
  \<^verbatim>\<open>float64(hits) / float64(hits+misses)\<close>, the sum taken in \<^verbatim>\<open>uint64\<close>. The handler
  then writes the statistics with \<^verbatim>\<open>json.NewEncoder(w).Encode(stats)\<close> and drops the
  error of the encoder. \<^verbatim>\<open>encoding/json\<close> refuses a \<^verbatim>\<open>float64\<close> that is NaN or
  infinite and then writes nothing, so the reply has either the statistics as its body
  or no body at all. \<open>uptime\<close> is the string of \<^verbatim>\<open>time.Since(...)\<close>.
\<close>

record cache_stats =
  st_hits :: uint64
  st_misses :: uint64
  st_hitRate :: float64
  st_size :: int64
  st_tiles :: nat

definition system_stats :: "TileCache \<Rightarrow> cache_stats" where
  "system_stats c =
     (case Stats c of
        (hits', misses', cacheSize, tileCount) \<Rightarrow>
          \<lparr>st_hits = hits', st_misses = misses',
           st_hitRate = float64_div hits' (hits' + misses'),
           st_size = cacheSize, st_tiles = tileCount\<rparr>)"

fun json_float64 :: "float64 \<Rightarrow> bool" where
  "json_float64 (Finite x) = True"
| "json_float64 NaN = False"
| "json_float64 PosInf = False"

datatype stats_reply = StatsBody cache_stats string | EmptyBody

definition handleSystemStats :: "string \<Rightarrow> TileCache \<Rightarrow> stats_reply" where
  "handleSystemStats uptime c =
     (if json_float64 (st_hitRate (system_stats c)) then StatsBody (system_stats c) uptime
      else EmptyBody)"

text \<open>
  The sequences of calls a client can make, and the state they lead to. Between calls
  the client owns the store; the cache only reads it and allocates in it.
\<close>

datatype cache_op = OpGet string | OpSet string TileResponse | OpClear

fun step :: "cache_op \<Rightarrow> heap \<times> TileCache \<Rightarrow> heap \<times> TileCache" where
  "step (OpGet k) (h, c) = (case Get k h c of (r, h', c') \<Rightarrow> (h', c'))"
| "step (OpSet k v) (h, c) = (h, Set k v h c)"
| "step OpClear (h, c) = (h, Clear c)"

definition run :: "cache_op list \<Rightarrow> heap \<times> TileCache \<Rightarrow> heap \<times> TileCache" where
  "run ops s = foldl (\<lambda>s op. step op s) s ops"

abbreviation reached :: "cache_op list \<Rightarrow> heap \<Rightarrow> int64 \<Rightarrow> heap \<times> TileCache" where
  "reached ops h0 cap \<equiv> run ops (h0, NewTileCache cap)"

text \<open>
  The resident bytes: the sum of the sizes of the entries in the cache. A size is the
  length of a slice, never negative, and is read unsigned; below \<open>2 ^ 63\<close> the signed
  reading is the same number.
\<close>

definition resident :: "TileCache \<Rightarrow> nat" where
  "resident c = (\<Sum>e\<leftarrow>lru c. unat (entry_size e))"

definition accounted :: "TileCache \<Rightarrow> bool" where
  "accounted c \<longleftrightarrow> currentSize c = (\<Sum>e\<leftarrow>lru c. entry_size e)"

definition cache_allocated :: "heap \<Rightarrow> TileCache \<Rightarrow> bool" where
  "cache_allocated h c \<longleftrightarrow> list_all (\<lambda>e. allocated h (Data (entry_value e))) (lru c)"

text \<open>Concrete stores and tiles for the examples.\<close>

definition heap0 :: heap where
  "heap0 = \<lparr>arrays = (\<lambda>_. []), fresh = 0\<rparr>"

definition tile :: "addr \<Rightarrow> TileResponse" where
  "tile a = \<lparr>Data = Some a, resp_Width = 512, resp_Height = 512,
             ContentType = ''image/webp'', CacheKey = ''''\<rparr>"

definition heap3 :: heap where
  "heap3 = snd (alloc [1, 2, 3, 4] (snd (alloc [5, 6] (snd (alloc [7, 8] heap0)))))"


section \<open>Errors\<close>

text \<open>
  Go errors are values. \<open>EOF\<close> is \<^verbatim>\<open>io.EOF\<close>, \<open>NetError\<close> any other error of the
  connection (reset, timeout), \<open>Canceled\<close> and \<open>DeadlineExceeded\<close> are the two values
  of \<^verbatim>\<open>ctx.Err()\<close>, \<open>Errorf m\<close> is \<^verbatim>\<open>fmt.Errorf(m)\<close> and \<open>Wrapf m e\<close> is
  \<^verbatim>\<open>fmt.Errorf(m + ": %w", e)\<close>. A run-time panic is the value \<open>Panic\<close>.
\<close>

datatype error =
  EOF | NetError string | Canceled | DeadlineExceeded
  | Errorf string | Wrapf string error | Panic string

section \<open>The scanner connection\<close>

text \<open>
  What the peer sends arrives as a sequence of events: a chunk of bytes that one
  \<^verbatim>\<open>Read\<close> can return at once, or an error of the connection. \<^verbatim>\<open>conn.Read(p)\<close> returns
  at most \<open>length p\<close> bytes of the chunk at the head and leaves the rest for the next
  call; it returns the error at the head; and it returns \<^verbatim>\<open>io.EOF\<close> when nothing is
  left, the peer having closed the connection.
\<close>

datatype read_event = Chunk "byte list" | Fail error

fun Read :: "nat \<Rightarrow> read_event list \<Rightarrow> (error + byte list) \<times> read_event list" where
  "Read n [] = (Inl EOF, [])"
| "Read n (Fail e # evs) = (Inl e, evs)"
| "Read n (Chunk bs # evs) =
     (if length bs \<le> n then (Inr bs, evs) else (Inr (take n bs), Chunk (drop n bs) # evs))"

fun event_size :: "read_event \<Rightarrow> nat" where
  "event_size (Chunk bs) = Suc (length bs)"
| "event_size (Fail e) = 1"

definition stream_size :: "read_event list \<Rightarrow> nat" where
  "stream_size evs = sum_list (map event_size evs)"

lemma Read_shrinks:
  "0 < n \<Longrightarrow> Read n evs = (Inr bs, evs') \<Longrightarrow> stream_size evs' < stream_size evs"
proof (cases evs)
  case Nil
  assume "Read n evs = (Inr bs, evs')"
  with Nil show ?thesis by simp
next
  case (Cons ev rest)
  assume n: "0 < n" and r: "Read n evs = (Inr bs, evs')"
  show ?thesis
  proof (cases ev)
    case (Chunk cs)
    with Cons r n show ?thesis
      by (auto simp: stream_size_def split: if_splits)
  next
    case (Fail e)
    with Cons r show ?thesis by simp
  qed
qed

text \<open>
  The context of a call: \<open>Never\<close> is a context that is never done; \<open>DoneAfter n e\<close>
  lets \<open>n\<close> more tests of \<^verbatim>\<open>ctx.Done()\<close> pass and is done from then on, with
  \<^verbatim>\<open>ctx.Err() = e\<close>.
\<close>

datatype Context = Never | DoneAfter nat error

fun ctx_Err :: "Context \<Rightarrow> error option" where
  "ctx_Err Never = None"
| "ctx_Err (DoneAfter 0 e) = Some e"
| "ctx_Err (DoneAfter (Suc n) e) = None"

fun tick :: "Context \<Rightarrow> Context" where
  "tick Never = Never"
| "tick (DoneAfter 0 e) = DoneAfter 0 e"
| "tick (DoneAfter (Suc n) e) = DoneAfter n e"

text \<open>
  \<^verbatim>\<open>binary.BigEndian.Uint32\<close> and \<^verbatim>\<open>PutUint32\<close>. \<^verbatim>\<open>Uint32\<close> panics on fewer than four
  bytes; every call below passes a buffer made with at least four.
\<close>

fun Uint32 :: "byte list \<Rightarrow> nat" where
  "Uint32 (a # b # c # d # _) = unat a * 2 ^ 24 + unat b * 2 ^ 16 + unat c * 2 ^ 8 + unat d"
| "Uint32 _ = 0"

definition PutUint32 :: "32 word \<Rightarrow> byte list" where
  "PutUint32 v = [ucast (drop_bit 24 v), ucast (drop_bit 16 v), ucast (drop_bit 8 v), ucast v]"

text \<open>
  \<^verbatim>\<open>Interface\<close>, \<^verbatim>\<open>ScanRequest\<close>, \<^verbatim>\<open>LayerData\<close> and \<^verbatim>\<open>ScanResult\<close> of the scanner
  package (\<^verbatim>\<open>encoders.go\<close>, second half). Of \<^verbatim>\<open>Interface\<close> the connection and the
  \<^verbatim>\<open>connected\<close> flag are kept; a scan touches nothing else. A write on the connection
  appends to \<open>outgoing\<close> unless the next entry of \<open>write_results\<close> is an error.
\<close>

record net_Conn =
  incoming :: "read_event list"
  write_results :: "error option list"
  outgoing :: "byte list"

record Interface =
  conn :: net_Conn
  connected :: bool

record ScanRequest =
  StartX :: int
  StartY :: int
  scan_Width :: int
  scan_Height :: int
  scan_Layers :: "int list"

record LayerData =
  ld_Layer :: int
  RawData :: "byte list"
  ld_Width :: int
  ld_Height :: int
  TilesX :: int
  TilesY :: int
  TileSize :: int
  Compressed :: bool

record ScanResult =
  res_SlideID :: string
  res_Timestamp :: int
  res_Layers :: "LayerData list"

definition CMD_SCAN :: byte where
  "CMD_SCAN = 3"

definition Write :: "byte list \<Rightarrow> net_Conn \<Rightarrow> error option \<times> net_Conn" where
  "Write p c =
     (case write_results c of
        Some e # rest \<Rightarrow> (Some e, c\<lparr>write_results := rest\<rparr>)
      | None # rest \<Rightarrow> (None, c\<lparr>write_results := rest, outgoing := outgoing c @ p\<rparr>)
      | [] \<Rightarrow> (None, c\<lparr>outgoing := outgoing c @ p\<rparr>))"

text \<open>\<^verbatim>\<open>sendCommand\<close>: one byte of command, four of length, the data; one \<^verbatim>\<open>Write\<close>.\<close>

definition sendCommand :: "byte \<Rightarrow> byte list \<Rightarrow> Interface \<Rightarrow> error option \<times> Interface" where
  "sendCommand cmd data s =
     (case Write ([cmd] @ PutUint32 (of_nat (length data)) @ data) (conn s) of
        (err, c') \<Rightarrow> (err, s\<lparr>conn := c'\<rparr>))"

text \<open>
  The loop of \<^verbatim>\<open>receiveLayerData\<close> that reads the image data: while fewer than
  \<^verbatim>\<open>dataSize\<close> bytes are read, test the context, then read into the rest of the buffer.
  \<open>buf\<close> is what has been read so far, \<^verbatim>\<open>RawData[:totalRead]\<close>.
\<close>

function read_data :: "Context \<Rightarrow> read_event list \<Rightarrow> nat \<Rightarrow> byte list
    \<Rightarrow> (error + byte list) \<times> Context \<times> read_event list" where
  "read_data ctx evs dataSize buf =
     (if length buf < dataSize then
        (case ctx_Err ctx of
           Some e \<Rightarrow> (Inl e, ctx, evs)
         | None \<Rightarrow>
             (case Read (dataSize - length buf) evs of
                (Inl e, evs') \<Rightarrow> (Inl e, tick ctx, evs')
              | (Inr bs, evs') \<Rightarrow> read_data (tick ctx) evs' dataSize (buf @ bs)))
      else (Inr buf, ctx, evs))"
  by pat_completeness auto
termination
proof (relation "measure (\<lambda>(ctx, evs, dataSize, buf). stream_size evs)")
  show "wf (measure (\<lambda>(ctx, evs, dataSize, buf). stream_size evs))" by simp
next
  fix ctx :: Context and evs dataSize and buf :: "byte list" and x y and b :: "byte list"
  assume "length buf < dataSize" and "(x, y) = Read (dataSize - length buf) evs" and "x = Inr b"
  then have "stream_size y < stream_size evs"
    using Read_shrinks [of "dataSize - length buf" evs b y] by simp
  then show "((tick ctx, y, dataSize, buf @ b), (ctx, evs, dataSize, buf))
      \<in> measure (\<lambda>(ctx, evs, dataSize, buf). stream_size evs)" by simp
qed

declare read_data.simps [simp del]

text \<open>
  \<^verbatim>\<open>receiveLayerData\<close>: one \<^verbatim>\<open>Read\<close> into a header buffer of 32 zero bytes, whose
  error alone is looked at, not the number of bytes it returned; the fields are decoded
  from the buffer; then the data loop.
\<close>

definition receiveLayerData :: "Context \<Rightarrow> Interface \<Rightarrow> (error + LayerData) \<times> Context \<times> Interface" where
  "receiveLayerData ctx s =
     (case Read 32 (incoming (conn s)) of
        (Inl err, evs) \<Rightarrow> (Inl err, ctx, s\<lparr>conn := (conn s)\<lparr>incoming := evs\<rparr>\<rparr>)
      | (Inr bs, evs) \<Rightarrow>
          (let header = bs @ replicate (32 - length bs) 0;
               layerData = \<lparr>ld_Layer = int (Uint32 header),
                            RawData = [],
                            ld_Width = int (Uint32 (drop 4 header)),
                            ld_Height = int (Uint32 (drop 8 header)),
                            TilesX = int (Uint32 (drop 12 header)),
                            TilesY = int (Uint32 (drop 16 header)),
                            TileSize = int (Uint32 (drop 20 header)),
                            Compressed = (header ! 24 = 1)\<rparr>;
               dataSize = Uint32 (drop 28 header)
           in case read_data ctx evs dataSize [] of
                (Inl err, ctx', evs') \<Rightarrow> (Inl err, ctx', s\<lparr>conn := (conn s)\<lparr>incoming := evs'\<rparr>\<rparr>)
              | (Inr raw, ctx', evs') \<Rightarrow>
                  (Inr (layerData\<lparr>RawData := raw\<rparr>), ctx', s\<lparr>conn := (conn s)\<lparr>incoming := evs'\<rparr>\<rparr>)))"

text \<open>
  \<^verbatim>\<open>readResponse\<close>: one \<^verbatim>\<open>Read\<close> of the four bytes of length, then a loop like the
  one above without a context.
\<close>

function read_response :: "read_event list \<Rightarrow> nat \<Rightarrow> byte list
    \<Rightarrow> (error + byte list) \<times> read_event list" where
  "read_response evs n buf =
     (if length buf < n then
        (case Read (n - length buf) evs of
           (Inl e, evs') \<Rightarrow> (Inl e, evs')
         | (Inr bs, evs') \<Rightarrow> read_response evs' n (buf @ bs))
      else (Inr buf, evs))"
  by pat_completeness auto
termination
proof (relation "measure (\<lambda>(evs, n, buf). stream_size evs)")
  show "wf (measure (\<lambda>(evs, n, buf). stream_size evs))" by simp
next
  fix evs n and buf :: "byte list" and x y and b :: "byte list"
  assume "length buf < n" and "(x, y) = Read (n - length buf) evs" and "x = Inr b"
  then have "stream_size y < stream_size evs"
    using Read_shrinks [of "n - length buf" evs b y] by simp
  then show "((y, n, buf @ b), (evs, n, buf)) \<in> measure (\<lambda>(evs, n, buf). stream_size evs)"
    by simp
qed

declare read_response.simps [simp del]

definition readResponse :: "Interface \<Rightarrow> (error + byte list) \<times> Interface" where
  "readResponse s =
     (case Read 4 (incoming (conn s)) of
        (Inl err, evs) \<Rightarrow> (Inl err, s\<lparr>conn := (conn s)\<lparr>incoming := evs\<rparr>\<rparr>)
      | (Inr bs, evs) \<Rightarrow>
          (let lengthBuf = bs @ replicate (4 - length bs) 0
           in case read_response evs (Uint32 lengthBuf) [] of
                (r, evs') \<Rightarrow> (r, s\<lparr>conn := (conn s)\<lparr>incoming := evs'\<rparr>\<rparr>)))"

text \<open>
  The loop \<^verbatim>\<open>for range req.Layers\<close> of \<^verbatim>\<open>StartScan\<close>: one \<^verbatim>\<open>receiveLayerData\<close> for
  each requested layer, appended to the result; the first error ends the scan.
\<close>

fun receive_layers :: "int list \<Rightarrow> Context \<Rightarrow> Interface \<Rightarrow> LayerData list
    \<Rightarrow> (error + LayerData list) \<times> Context \<times> Interface" where
  "receive_layers [] ctx s acc = (Inr acc, ctx, s)"
| "receive_layers (l # ls) ctx s acc =
     (case receiveLayerData ctx s of
        (Inl err, ctx', s') \<Rightarrow> (Inl (Wrapf ''failed to receive layer data'' err), ctx', s')
      | (Inr layerData, ctx', s') \<Rightarrow> receive_layers ls ctx' s' (acc @ [layerData]))"

text \<open>
  The data of the scan command: four coordinates, the number of layers and the layer
  indices, each as four bytes.
\<close>

definition scan_command :: "ScanRequest \<Rightarrow> byte list" where
  "scan_command req =
     PutUint32 (of_int (StartX req)) @ PutUint32 (of_int (StartY req))
       @ PutUint32 (of_int (scan_Width req)) @ PutUint32 (of_int (scan_Height req))
       @ PutUint32 (of_nat (length (scan_Layers req)))
       @ concat (map (\<lambda>layer. PutUint32 (of_int layer)) (scan_Layers req))"

text \<open>
  \<^verbatim>\<open>StartScan\<close>; \<open>now\<close> is \<^verbatim>\<open>time.Now().Unix()\<close>. No branch assigns \<^verbatim>\<open>s.connected\<close>.
\<close>

definition StartScan :: "int \<Rightarrow> Context \<Rightarrow> ScanRequest \<Rightarrow> Interface
    \<Rightarrow> (error + ScanResult) \<times> Context \<times> Interface" where
  "StartScan now ctx req s =
     (if \<not> connected s then (Inl (Errorf ''not connected to scanner''), ctx, s)
      else
        (let cmdData = scan_command req
         in case sendCommand CMD_SCAN cmdData s of
              (Some err, s') \<Rightarrow> (Inl err, ctx, s')
            | (None, s') \<Rightarrow>
                (case receive_layers (scan_Layers req) ctx s' [] of
                   (Inl err, ctx', s'') \<Rightarrow> (Inl err, ctx', s'')
                 | (Inr layers, ctx', s'') \<Rightarrow>
                     (Inr \<lparr>res_SlideID = ''slide_'' @ formatInt now, res_Timestamp = now,
                           res_Layers = layers\<rparr>, ctx', s''))))"

text \<open>
  What it means for the reception of one layer to break, said of the stream and of the
  context and not of the code. A read meets an error when the stream is at its end or has
  an error at its head. A context is done within \<open>j\<close> tests when it lets no more than
  \<open>j\<close> pass. \<open>payload_reads n cs\<close> is the number of reads that \<open>n\<close> bytes take when
  they arrive in the chunks \<open>cs\<close>: a read returns one chunk, or the part of it that is
  still wanted. The image data break in two ways. When the chunks at the head of the
  stream hold fewer bytes than the header declares, the error is the context's if it is
  done by the time those chunks are read, and otherwise the error after the chunks. When
  they hold the bytes declared, the data break if the context is done before the last of
  the reads they take. A layer breaks when there is no header to read, or when a header
  arrives whole and its image data break. (A header cut in two by a short read is not
  covered here.)
\<close>

fun is_Chunk :: "read_event \<Rightarrow> bool" where
  "is_Chunk (Chunk bs) = True"
| "is_Chunk (Fail e) = False"

fun chunk_bytes :: "read_event \<Rightarrow> byte list" where
  "chunk_bytes (Chunk bs) = bs"
| "chunk_bytes (Fail e) = []"

fun stream_error :: "read_event list \<Rightarrow> error option" where
  "stream_error [] = Some EOF"
| "stream_error (Fail e # evs) = Some e"
| "stream_error (Chunk bs # evs) = None"

fun done_within :: "Context \<Rightarrow> nat \<Rightarrow> error option" where
  "done_within Never j = None"
| "done_within (DoneAfter k e) j = (if k \<le> j then Some e else None)"

fun payload_reads :: "nat \<Rightarrow> byte list list \<Rightarrow> nat" where
  "payload_reads n [] = 0"
| "payload_reads n (c # cs) = (if n = 0 then 0 else Suc (payload_reads (n - length c) cs))"

definition data_break :: "Context \<Rightarrow> read_event list \<Rightarrow> nat \<Rightarrow> error option" where
  "data_break ctx evs n =
     (let cs = map chunk_bytes (takeWhile is_Chunk evs) in
      if length (concat cs) < n
      then (case done_within ctx (length cs) of
              Some e \<Rightarrow> Some e
            | None \<Rightarrow> stream_error (dropWhile is_Chunk evs))
      else if n = 0 then None
      else done_within ctx (payload_reads n cs - 1))"

fun layer_break :: "Context \<Rightarrow> read_event list \<Rightarrow> error option" where
  "layer_break ctx [] = Some EOF"
| "layer_break ctx (Fail e # evs) = Some e"
| "layer_break ctx (Chunk c # evs) =
     (if length c < 32 then None
      else data_break ctx (if length c = 32 then evs else Chunk (drop 32 c) # evs)
             (Uint32 (drop 28 (take 32 c))))"

text \<open>A layer header of 32 bytes and the three bytes of image data it announces.\<close>

definition header_bytes :: "byte list" where
  "header_bytes =
     [0, 0, 0, 1,  0, 0, 0, 2,  0, 0, 0, 2,  0, 0, 0, 1,
      0, 0, 0, 1,  0, 0, 2, 0,  1, 0, 0, 0,  0, 0, 0, 3]"

definition scanner_on :: "read_event list \<Rightarrow> Interface" where
  "scanner_on evs =
     \<lparr>conn = \<lparr>incoming = evs, write_results = [], outgoing = []\<rparr>, connected = True\<rparr>"


section \<open>The tile processor\<close>

text \<open>
  The buffer pool is a \<^verbatim>\<open>sync.Pool\<close> whose \<^verbatim>\<open>New\<close> makes a buffer of
  \<^verbatim>\<open>4096*4096*4\<close> bytes. Buffers are told apart by a number; \<open>idle\<close> are the buffers
  in the pool and \<open>made\<close> counts the calls of \<^verbatim>\<open>New\<close>. \<^verbatim>\<open>Get\<close> takes an idle buffer
  if there is one and makes one otherwise; \<^verbatim>\<open>Put\<close> gives a buffer back.
\<close>

type_synonym buffer = nat

record BufferPool =
  idle :: "buffer list"
  made :: nat

definition pool_Get :: "BufferPool \<Rightarrow> buffer \<times> BufferPool" where
  "pool_Get p =
     (case idle p of
        b # bs \<Rightarrow> (b, p\<lparr>idle := bs\<rparr>)
      | [] \<Rightarrow> (made p, p\<lparr>made := Suc (made p)\<rparr>))"

definition pool_Put :: "buffer \<Rightarrow> BufferPool \<Rightarrow> BufferPool" where
  "pool_Put b p = p\<lparr>idle := b # idle p\<rparr>"

definition buffer_cap :: int where
  "buffer_cap = 4096 * 4096 * 4"

text \<open>
  The CUDA runtime and the image encoders are libraries outside the repository and are
  parameters of the model. For one request, \<open>gpu_run\<close> says which CUDA calls succeed
  and which bytes the kernel leaves in the output buffer.
\<close>

record image_RGBA =
  Pix :: "byte list"
  Stride :: int
  Rect :: "int \<times> int \<times> int \<times> int"

record gpu_run =
  mallocInput :: bool
  mallocOutput :: bool
  copyToGPU :: bool
  streamSync :: bool
  copyFromGPU :: bool
  pixels :: "byte list"

record backend =
  cuda :: "TileRequest \<Rightarrow> gpu_run"
  webp_Encode :: "image_RGBA \<Rightarrow> int \<Rightarrow> error + byte list"
  jpeg_Encode :: "image_RGBA \<Rightarrow> int \<Rightarrow> error + byte list"

text \<open>
  \<^verbatim>\<open>loadRawTile\<close> is part of the repository (\<^verbatim>\<open>gpu_processor.go\<close>, lines 178 to 183):
  a private method whose whole body is
  \<^verbatim>\<open>return nil, fmt.Errorf("not implemented: loadRawTile")\<close>.
\<close>

definition loadRawTile :: "TileRequest \<Rightarrow> error + byte list" where
  "loadRawTile req = Inl (Errorf ''not implemented: loadRawTile'')"

record GPUTileProcessor =
  tileCache :: TileCache
  bufferPool :: BufferPool
  colorCorrect :: bool

text \<open>Go's \<^verbatim>\<open>int\<close> arithmetic: the result wrapped into 64 bits, two's complement.\<close>

definition wrap64 :: "int \<Rightarrow> int" where
  "wrap64 i = (i + 2 ^ 63) mod 2 ^ 64 - 2 ^ 63"

text \<open>The encoders of \<^verbatim>\<open>encoders.go\<close>; \<^verbatim>\<open>encodeAVIF\<close> falls back to WebP.\<close>

definition encodeJPEG :: "backend \<Rightarrow> image_RGBA \<Rightarrow> int \<Rightarrow> error + byte list \<times> string" where
  "encodeJPEG env img quality =
     (case jpeg_Encode env img quality of
        Inl err \<Rightarrow> Inl err
      | Inr buf \<Rightarrow> Inr (buf, ''image/jpeg''))"

definition encodeWebP :: "backend \<Rightarrow> image_RGBA \<Rightarrow> int \<Rightarrow> error + byte list \<times> string" where
  "encodeWebP env img quality =
     (case webp_Encode env img quality of
        Inl err \<Rightarrow> Inl err
      | Inr buf \<Rightarrow> Inr (buf, ''image/webp''))"

definition encodeAVIF :: "backend \<Rightarrow> image_RGBA \<Rightarrow> int \<Rightarrow> error + byte list \<times> string" where
  "encodeAVIF env img quality = encodeWebP env img quality"

text \<open>\<^verbatim>\<open>encodeTile\<close>: the \<^verbatim>\<open>switch\<close> on the format; anything but webp and avif is JPEG.\<close>

definition tile_image :: "byte list \<Rightarrow> TileRequest \<Rightarrow> image_RGBA" where
  "tile_image data req =
     \<lparr>Pix = data, Stride = wrap64 (req_Width req * 4),
      Rect = (min 0 (req_Width req), min 0 (req_Height req),
              max 0 (req_Width req), max 0 (req_Height req))\<rparr>"

definition encodeTile :: "backend \<Rightarrow> byte list \<Rightarrow> TileRequest \<Rightarrow> error + byte list \<times> string" where
  "encodeTile env data req =
     (let img = tile_image data req
      in if Format req = ''webp'' then encodeWebP env img (Quality req)
         else if Format req = ''avif'' then encodeAVIF env img (Quality req)
         else encodeJPEG env img (Quality req))"

text \<open>
  \<^verbatim>\<open>ProcessTile\<close>, statement by statement, in two parts. \<open>process_loaded\<close> is what
  follows the loading of the raw tile (lines 110 to 176): every failing call returns at
  once; the address of the first element of an empty slice, and a slice expression
  beyond the capacity, panic; the pooled buffer is taken after the stream is
  synchronised, and of the returns after that point only the one after a failed encoding
  and the last one put it back. \<open>tileSize\<close> is the value of the variable of that name.
\<close>

definition tileSize :: "TileRequest \<Rightarrow> int" where
  "tileSize req = wrap64 (wrap64 (req_Width req * req_Height req) * 4)"

definition process_loaded :: "backend \<Rightarrow> TileRequest \<Rightarrow> byte list \<Rightarrow> heap \<Rightarrow> TileCache
    \<Rightarrow> GPUTileProcessor \<Rightarrow> (error + TileResponse) \<times> heap \<times> GPUTileProcessor" where
  "process_loaded env req rawData h1 c1 p1 =
     (if \<not> mallocInput (cuda env req)
      then (Inl (Errorf ''failed to allocate GPU input memory''), h1, p1)
      else if \<not> mallocOutput (cuda env req)
      then (Inl (Errorf ''failed to allocate GPU output memory''), h1, p1)
      else if rawData = []
      then (Inl (Panic ''index out of range''), h1, p1)
      else if \<not> copyToGPU (cuda env req)
      then (Inl (Errorf ''failed to copy to GPU''), h1, p1)
      else if \<not> streamSync (cuda env req)
      then (Inl (Errorf ''CUDA stream sync failed''), h1, p1)
      else
        (case pool_Get (bufferPool p1) of
           (output, pool1) \<Rightarrow>
             if tileSize req < 0 \<or> buffer_cap < tileSize req
             then (Inl (Panic ''slice bounds out of range''), h1, p1\<lparr>bufferPool := pool1\<rparr>)
             else if tileSize req = 0
             then (Inl (Panic ''index out of range''), h1, p1\<lparr>bufferPool := pool1\<rparr>)
             else if \<not> copyFromGPU (cuda env req)
             then (Inl (Errorf ''failed to copy from GPU''), h1, p1\<lparr>bufferPool := pool1\<rparr>)
             else
               (case encodeTile env (pixels (cuda env req)) req of
                  Inl err \<Rightarrow>
                    (Inl (Wrapf ''failed to encode tile'' err), h1,
                     p1\<lparr>bufferPool := pool_Put output pool1\<rparr>)
                | Inr (encoded, contentType) \<Rightarrow>
                    (case alloc encoded h1 of
                       (a, h2) \<Rightarrow>
                         (let response =
                                \<lparr>Data = Some a, resp_Width = req_Width req,
                                 resp_Height = req_Height req,
                                 ContentType = contentType,
                                 CacheKey = cacheKey req\<rparr>
                          in (Inr response, h2,
                              p1\<lparr>tileCache := Set (cacheKey req) response h2 c1,
                                 bufferPool := pool_Put output pool1\<rparr>))))))"

text \<open>
  \<^verbatim>\<open>ProcessTile\<close> itself: the cache key, the lookup, and on a miss the loading of the
  raw tile. A hit returns the copy \<^verbatim>\<open>Get\<close> made.
\<close>

definition ProcessTile :: "backend \<Rightarrow> TileRequest \<Rightarrow> heap \<times> GPUTileProcessor
    \<Rightarrow> (error + TileResponse) \<times> heap \<times> GPUTileProcessor" where
  "ProcessTile env req st =
     (case st of (h, p) \<Rightarrow>
      (case Get (cacheKey req) h (tileCache p) of
         (Some cached, h1, c1) \<Rightarrow> (Inr cached, h1, p\<lparr>tileCache := c1\<rparr>)
       | (None, h1, c1) \<Rightarrow>
           (case loadRawTile req of
              Inl err \<Rightarrow> (Inl (Wrapf ''failed to load raw tile'' err), h1, p\<lparr>tileCache := c1\<rparr>)
            | Inr rawData \<Rightarrow> process_loaded env req rawData h1 c1 (p\<lparr>tileCache := c1\<rparr>))))"

text \<open>The error of a request whose tile is not in the cache.\<close>

definition load_error :: error where
  "load_error = Wrapf ''failed to load raw tile'' (Errorf ''not implemented: loadRawTile'')"

section \<open>Batches\<close>










text \<open>
  The entry of the cache for the tile of a request, and what a response and the value
  cached share when the one is the copy of the other that \<^verbatim>\<open>Get\<close> makes: everything
  but the array of the data.
\<close>

definition cached :: "GPUTileProcessor \<Rightarrow> TileRequest \<Rightarrow> cacheEntry option" where
  "cached p req = items (tileCache p) (cacheKey req)"


section \<open>What holds of a batch while it runs\<close>









section \<open>The HTTP handlers\<close>









definition demo_request :: "string \<Rightarrow> string \<Rightarrow> int \<Rightarrow> TileRequest" where
  "demo_request slide fmt q =
     \<lparr>SlideID = slide, Layer = 0, X = 0, Y = 0, Z = 0, req_Width = 1, req_Height = 1,
      Format = fmt, Quality = q\<rparr>"


text \<open>
  A cache that holds a tile for each of the given requests: the response \<open>tile a\<close>,
  whose data is the array at the address \<open>a\<close> of the store \<open>heap3\<close>. It is the cache
  after a \<^verbatim>\<open>Set\<close> for each request, the last of the list first.
\<close>

definition warm_cache :: "(TileRequest \<times> addr) list \<Rightarrow> TileCache" where
  "warm_cache tiles =
     \<lparr>maxSize = 1024,
      currentSize = (\<Sum>(req, a)\<leftarrow>tiles. of_nat (length (arrays heap3 a))),
      lru = map (\<lambda>(req, a). \<lparr>entry_key = cacheKey req, entry_value = tile a,
                                 entry_size = of_nat (length (arrays heap3 a))\<rparr>) tiles,
      hits = 0, misses = 0\<rparr>"

section \<open>The cache key is injective\<close>

lemma digit_val_digit_char: "d < 10 \<Longrightarrow> digit_val (digit_char d) = d"
  by (simp add: digit_val_def digit_char_def)

lemma digits_val_digits10: "digits_val (digits10 n) = n"
proof (induction n rule: digits10.induct)
  case (1 n)
  show ?case
  proof (cases "n < 10")
    case True
    then have "digits10 n = [digit_char n]" by (subst digits10.simps) simp
    with True show ?thesis
      by (simp add: digits_val_def digit_val_digit_char)
  next
    case False
    have "digits_val (digits10 n) = 10 * digits_val (digits10 (n div 10)) + digit_val (digit_char (n mod 10))"
      using False by (subst digits10.simps) (simp add: digits_val_def)
    also have "\<dots> = 10 * (n div 10) + n mod 10"
      using 1 False by (simp add: digit_val_digit_char)
    finally show ?thesis by simp
  qed
qed

lemma digits10_inj: "digits10 m = digits10 n \<Longrightarrow> m = n"
  by (metis digits_val_digits10)

lemma digit_char_range: "d < 10 \<Longrightarrow> of_char (digit_char d) \<in> {48 ..< (58::nat)}"
  by (simp add: digit_char_def)

lemma digits10_chars: "c \<in> set (digits10 n) \<Longrightarrow> of_char c \<in> {48 ..< (58::nat)}"
proof (induction n rule: digits10.induct)
  case (1 n)
  show ?case
  proof (cases "n < 10")
    case True
    with 1(2) have "c = digit_char n" by (subst (asm) digits10.simps) simp
    with True show ?thesis using digit_char_range by blast
  next
    case False
    with 1(2) have "c \<in> set (digits10 (n div 10)) \<or> c = digit_char (n mod 10)"
      by (subst (asm) digits10.simps) auto
    then show ?thesis
    proof
      assume "c \<in> set (digits10 (n div 10))"
      with 1(1) False show ?thesis by simp
    next
      assume "c = digit_char (n mod 10)"
      then show ?thesis using digit_char_range [of "n mod 10"] by simp
    qed
  qed
qed

lemma digits10_no_colon: "CHR '':'' \<notin> set (digits10 n)"
  using digits10_chars [of "CHR '':''" n] by auto

lemma digits10_no_minus: "CHR ''-'' \<notin> set (digits10 n)"
  using digits10_chars [of "CHR ''-''" n] by auto

lemma digits10_nonempty: "digits10 n \<noteq> []"
  by (subst digits10.simps) simp

lemma formatInt_no_colon: "CHR '':'' \<notin> set (formatInt i)"
  by (simp add: formatInt_def digits10_no_colon)

lemma formatInt_inj: "formatInt i = formatInt j \<Longrightarrow> i = j"
proof -
  assume eq: "formatInt i = formatInt j"
  have hd_pos: "hd (digits10 n) \<noteq> CHR ''-''" for n
    using digits10_no_minus [of n] digits10_nonempty [of n] by (cases "digits10 n") auto
  show "i = j"
  proof (cases "i < 0")
    case True
    show ?thesis
    proof (cases "j < 0")
      case True
      with \<open>i < 0\<close> eq have "digits10 (nat (- i)) = digits10 (nat (- j))"
        by (simp add: formatInt_def)
      then have "nat (- i) = nat (- j)" by (rule digits10_inj)
      with True \<open>i < 0\<close> show ?thesis by simp
    next
      case False
      with \<open>i < 0\<close> eq have "CHR ''-'' # digits10 (nat (- i)) = digits10 (nat j)"
        by (simp add: formatInt_def)
      then have "hd (digits10 (nat j)) = CHR ''-''" by (metis list.sel(1))
      with hd_pos show ?thesis by blast
    qed
  next
    case False
    show ?thesis
    proof (cases "j < 0")
      case True
      with False eq have "digits10 (nat i) = CHR ''-'' # digits10 (nat (- j))"
        by (simp add: formatInt_def)
      then have "hd (digits10 (nat i)) = CHR ''-''" by (metis list.sel(1))
      with hd_pos show ?thesis by blast
    next
      case False
      with \<open>\<not> i < 0\<close> eq have "digits10 (nat i) = digits10 (nat j)"
        by (simp add: formatInt_def)
      then have "nat i = nat j" by (rule digits10_inj)
      with False \<open>\<not> i < 0\<close> show ?thesis by simp
    qed
  qed
qed

text \<open>
  A string that ends in a separator and a separator-free field splits in one way only:
  the field is what follows the last separator.
\<close>

lemma split_first_field:
  "c \<notin> set a \<Longrightarrow> c \<notin> set a' \<Longrightarrow> a @ c # r = a' @ c # r' \<Longrightarrow> a = a' \<and> r = r'"
proof (induction a arbitrary: a')
  case Nil
  then show ?case by (cases a') auto
next
  case (Cons x a)
  then show ?case by (cases a') auto
qed

lemma split_last_field:
  assumes "s @ c # d = s' @ c # d'" and "c \<notin> set d" and "c \<notin> set d'"
  shows "s = s' \<and> d = d'"
proof -
  have "rev (s @ c # d) = rev (s' @ c # d')" using assms(1) by simp
  then have "rev d @ c # rev s = rev d' @ c # rev s'" by simp
  moreover have "c \<notin> set (rev d)" "c \<notin> set (rev d')"
    using assms(2,3) by simp_all
  ultimately have "rev d = rev d' \<and> rev s = rev s'"
    by (rule split_first_field [rotated 2])
  then show ?thesis by simp
qed

text \<open>
  C9. The cache key of a tile request determines its five identity fields and is
  determined by them: two requests have the same key exactly when slide id, layer,
  x, y and z agree, whatever characters the slide id holds (colons included) and for
  every value of the four integers. The key is defined for every request.
\<close>

theorem cacheKey_injective:
  "cacheKey r1 = cacheKey r2 \<longleftrightarrow>
     SlideID r1 = SlideID r2 \<and> Layer r1 = Layer r2 \<and> X r1 = X r2 \<and> Y r1 = Y r2 \<and> Z r1 = Z r2"
proof
  assume eq: "cacheKey r1 = cacheKey r2"
  let ?c = "CHR '':''"
  have k: "cacheKey r =
      (SlideID r @ ?c # formatInt (Layer r) @ ?c # formatInt (X r) @ ?c # formatInt (Y r))
        @ ?c # formatInt (Z r)" for r
    by (simp add: cacheKey_def)
  from eq have e4: "(SlideID r1 @ ?c # formatInt (Layer r1) @ ?c # formatInt (X r1) @ ?c # formatInt (Y r1))
        @ ?c # formatInt (Z r1)
      = (SlideID r2 @ ?c # formatInt (Layer r2) @ ?c # formatInt (X r2) @ ?c # formatInt (Y r2))
        @ ?c # formatInt (Z r2)"
    by (simp only: k)
  from split_last_field [OF e4 formatInt_no_colon formatInt_no_colon]
  have z: "formatInt (Z r1) = formatInt (Z r2)"
    and e3: "(SlideID r1 @ ?c # formatInt (Layer r1) @ ?c # formatInt (X r1)) @ ?c # formatInt (Y r1)
      = (SlideID r2 @ ?c # formatInt (Layer r2) @ ?c # formatInt (X r2)) @ ?c # formatInt (Y r2)"
    by simp_all
  from split_last_field [OF e3 formatInt_no_colon formatInt_no_colon]
  have y: "formatInt (Y r1) = formatInt (Y r2)"
    and e2: "(SlideID r1 @ ?c # formatInt (Layer r1)) @ ?c # formatInt (X r1)
      = (SlideID r2 @ ?c # formatInt (Layer r2)) @ ?c # formatInt (X r2)"
    by simp_all
  from split_last_field [OF e2 formatInt_no_colon formatInt_no_colon]
  have x: "formatInt (X r1) = formatInt (X r2)"
    and e1: "SlideID r1 @ ?c # formatInt (Layer r1) = SlideID r2 @ ?c # formatInt (Layer r2)"
    by simp_all
  from split_last_field [OF e1 formatInt_no_colon formatInt_no_colon]
  have l: "formatInt (Layer r1) = formatInt (Layer r2)" and s: "SlideID r1 = SlideID r2"
    by simp_all
  from s l x y z
  show "SlideID r1 = SlideID r2 \<and> Layer r1 = Layer r2 \<and> X r1 = X r2 \<and> Y r1 = Y r2 \<and> Z r1 = Z r2"
    by (auto dest: formatInt_inj)
next
  assume "SlideID r1 = SlideID r2 \<and> Layer r1 = Layer r2 \<and> X r1 = X r2 \<and> Y r1 = Y r2 \<and> Z r1 = Z r2"
  then show "cacheKey r1 = cacheKey r2" by (simp add: cacheKey_def)
qed

section \<open>The cache: accounting of resident bytes\<close>

lemma items_Some_mem: "items c k = Some e \<Longrightarrow> e \<in> set (lru c) \<and> entry_key e = k"
  unfolding items_def by (auto simp: find_Some_iff)

lemma sum_remove1_word:
  "e \<in> set xs \<Longrightarrow> (\<Sum>x\<leftarrow>remove1 e xs. (f x :: 'a::ab_group_add)) = (\<Sum>x\<leftarrow>xs. f x) - f e"
  by (induction xs) auto

lemma sum_remove1_nat:
  "e \<in> set xs \<Longrightarrow> (\<Sum>x\<leftarrow>remove1 e xs. (f x :: nat)) + f e = (\<Sum>x\<leftarrow>xs. f x)"
  by (induction xs) auto

lemma sum_butlast_word:
  "xs \<noteq> [] \<Longrightarrow> (\<Sum>x\<leftarrow>butlast xs. (f x :: 'a::ab_group_add)) = (\<Sum>x\<leftarrow>xs. f x) - f (last xs)"
  by (induction xs) auto

lemma sum_butlast_nat:
  "xs \<noteq> [] \<Longrightarrow> (\<Sum>x\<leftarrow>butlast xs. (f x :: nat)) + f (last xs) = (\<Sum>x\<leftarrow>xs. f x)"
  by (induction xs) auto

lemma evict_until_stop:
  "\<not> (maxSize c <s currentSize c + sz \<and> lru c \<noteq> []) \<Longrightarrow> evict_until sz c = c"
  by (subst evict_until.simps) (rule if_not_P)

lemma evict_until_more:
  "maxSize c <s currentSize c + sz \<and> lru c \<noteq> [] \<Longrightarrow> evict_until sz c = evict_until sz (evictOldest c)"
  by (subst evict_until.simps) (rule if_P)

lemma accounted_New: "accounted (NewTileCache cap)"
  by (simp add: accounted_def NewTileCache_def)

lemma accounted_evictOldest: "accounted c \<Longrightarrow> accounted (evictOldest c)"
  by (simp add: accounted_def evictOldest_def sum_butlast_word)

lemma accounted_evict_until: "accounted c \<Longrightarrow> accounted (evict_until sz c)"
proof (induction sz c rule: evict_until.induct)
  case (1 sz c)
  show ?case
  proof (cases "maxSize c <s currentSize c + sz \<and> lru c \<noteq> []")
    case True
    then have "evict_until sz c = evict_until sz (evictOldest c)"
      by (rule evict_until_more)
    with 1 True show ?thesis by (simp add: accounted_evictOldest)
  next
    case False
    then have "evict_until sz c = c" by (rule evict_until_stop)
    with 1 show ?thesis by simp
  qed
qed

lemma accounted_Set: "accounted c \<Longrightarrow> accounted (Set k v h c)"
proof (cases "items c k")
  case None
  assume "accounted c"
  then have "accounted (evict_until (of_nat (len h (Data v))) c)" by (rule accounted_evict_until)
  with None show ?thesis by (simp add: Set_def Let_def accounted_def)
next
  case (Some e)
  assume "accounted c"
  moreover from Some have "e \<in> set (lru c)" by (simp add: items_Some_mem)
  ultimately show ?thesis using Some
    by (simp add: Set_def Let_def accounted_def sum_remove1_word)
qed

lemma accounted_Clear: "accounted (Clear c)"
  by (simp add: accounted_def Clear_def)

lemma Get_cases:
  obtains (miss) "items c k = None" "Get k h c = (None, h, c\<lparr>misses := misses c + 1\<rparr>)"
  | (hit) e r h' where "items c k = Some e" 
      "Get k h c = (Some r, h', c\<lparr>hits := hits c + 1, lru := e # remove1 e (lru c)\<rparr>)"
proof (cases "items c k")
  case None
  then show ?thesis using miss by (simp add: Get_def)
next
  case (Some e)
  obtain d h' where "append_nil h (Data (entry_value e)) = (d, h')"
    by (cases "append_nil h (Data (entry_value e))")
  with Some show ?thesis using hit [of e] by (simp add: Get_def)
qed

lemma accounted_Get: "accounted c \<Longrightarrow> accounted (snd (snd (Get k h c)))"
proof (cases k h c rule: Get_cases)
  case miss
  assume "accounted c"
  with miss show ?thesis by (simp add: accounted_def)
next
  case (hit e r h')
  assume "accounted c"
  moreover from hit have "e \<in> set (lru c)" by (simp add: items_Some_mem)
  ultimately show ?thesis using hit by (simp add: accounted_def sum_remove1_word)
qed

lemma accounted_step: "accounted (snd s) \<Longrightarrow> accounted (snd (step op s))"
proof (cases s)
  case (Pair h c)
  assume "accounted (snd s)"
  with Pair have a: "accounted c" by simp
  show ?thesis
  proof (cases op)
    case (OpGet k)
    with Pair accounted_Get [OF a, of k h] show ?thesis by (cases "Get k h c") simp
  next
    case (OpSet k v)
    with Pair a show ?thesis by (simp add: accounted_Set)
  next
    case OpClear
    with Pair show ?thesis by (simp add: accounted_Clear)
  qed
qed

lemma accounted_run: "accounted (snd s) \<Longrightarrow> accounted (snd (run ops s))"
  unfolding run_def by (induction ops arbitrary: s) (auto simp: accounted_step)

lemma maxSize_evict_until: "maxSize (evict_until sz c) = maxSize c"
proof (induction sz c rule: evict_until.induct)
  case (1 sz c)
  show ?case
  proof (cases "maxSize c <s currentSize c + sz \<and> lru c \<noteq> []")
    case True
    then have "evict_until sz c = evict_until sz (evictOldest c)"
      by (rule evict_until_more)
    with 1 True show ?thesis by (simp add: evictOldest_def)
  next
    case False
    then have "evict_until sz c = c" by (rule evict_until_stop)
    then show ?thesis by simp
  qed
qed

lemma maxSize_Set: "maxSize (Set k v h c) = maxSize c"
  by (simp add: Set_def Let_def maxSize_evict_until split: option.splits)

lemma maxSize_Get: "maxSize (snd (snd (Get k h c))) = maxSize c"
  by (cases k h c rule: Get_cases) simp_all

lemma maxSize_step: "maxSize (snd (step op s)) = maxSize (snd s)"
proof (cases s)
  case (Pair h c)
  show ?thesis
  proof (cases op)
    case (OpGet k)
    with Pair maxSize_Get [of k h c] show ?thesis by (cases "Get k h c") simp
  next
    case (OpSet k v)
    with Pair show ?thesis by (simp add: maxSize_Set)
  next
    case OpClear
    with Pair show ?thesis by (simp add: Clear_def)
  qed
qed

lemma maxSize_run: "maxSize (snd (run ops s)) = maxSize (snd s)"
  unfolding run_def by (induction ops arbitrary: s) (auto simp: maxSize_step)

lemma sint_of_nat64: "n < 2 ^ 63 \<Longrightarrow> sint (of_nat n :: 64 word) = int n"
proof -
  assume n: "n < 2 ^ 63"
  have "sint (word_of_int (int n) :: 64 word) = (int n + 2 ^ 63) mod 2 ^ 64 - 2 ^ 63"
    using int_word_sint [of "int n", where 'a = 64] by simp
  also have "\<dots> = int n" using n by simp
  finally show ?thesis by simp
qed

lemma unat_of_nat64: "n < 2 ^ 63 \<Longrightarrow> unat (of_nat n :: 64 word) = n"
  by (simp add: unat_of_nat)

lemma word_sum_unat: "(\<Sum>e\<leftarrow>xs. (f e :: 64 word)) = of_nat (\<Sum>e\<leftarrow>xs. unat (f e))"
  by (induction xs) simp_all

lemma accounted_resident: "accounted c \<Longrightarrow> currentSize c = of_nat (resident c)"
  by (simp add: accounted_def resident_def word_sum_unat)

lemma sint_current_plus:
  assumes "accounted c" and "resident c + unat sz < 2 ^ 63"
  shows "sint (currentSize c + sz) = int (resident c) + int (unat sz)"
proof -
  have eq: "currentSize c + sz = of_nat (resident c + unat sz)"
    using assms(1) by (simp add: accounted_resident)
  show ?thesis unfolding eq sint_of_nat64 [OF assms(2)] by simp
qed

lemma resident_evictOldest: "resident (evictOldest c) \<le> resident c"
proof (cases "lru c = []")
  case True
  then show ?thesis by (simp add: evictOldest_def)
next
  case False
  then have "resident (evictOldest c) + unat (entry_size (last (lru c))) = resident c"
    using sum_butlast_nat [of "lru c" "\<lambda>e. unat (entry_size e)"]
    by (simp add: evictOldest_def resident_def)
  then show ?thesis by simp
qed

lemma evict_until_fits:
  assumes "accounted c" and "resident c + unat sz < 2 ^ 63"
  shows "resident (evict_until sz c) \<le> resident c \<and>
         (int (resident (evict_until sz c)) + int (unat sz) \<le> sint (maxSize c)
            \<or> lru (evict_until sz c) = [])"
  using assms
proof (induction sz c rule: evict_until.induct)
  case (1 sz c)
  show ?case
  proof (cases "maxSize c <s currentSize c + sz \<and> lru c \<noteq> []")
    case True
    have le: "resident (evictOldest c) \<le> resident c" by (rule resident_evictOldest)
    have "resident (evict_until sz (evictOldest c)) \<le> resident (evictOldest c) \<and>
         (int (resident (evict_until sz (evictOldest c))) + int (unat sz) \<le> sint (maxSize (evictOldest c))
            \<or> lru (evict_until sz (evictOldest c)) = [])"
      using True 1 le by (intro "1.IH") (simp_all add: accounted_evictOldest)
    moreover have "maxSize (evictOldest c) = maxSize c" by (simp add: evictOldest_def)
    moreover have "evict_until sz c = evict_until sz (evictOldest c)"
      using True by (rule evict_until_more)
    ultimately show ?thesis using le by simp
  next
    case False
    then have stop: "evict_until sz c = c" by (rule evict_until_stop)
    from False have "\<not> maxSize c <s currentSize c + sz \<or> lru c = []" by blast
    then have "int (resident c) + int (unat sz) \<le> sint (maxSize c) \<or> lru c = []"
      using sint_current_plus [OF "1.prems"] by (auto simp: word_sless_alt)
    with stop show ?thesis by simp
  qed
qed

lemma evict_until_oversized:
  assumes "accounted c" and "resident c + unat sz < 2 ^ 63" and "sint (maxSize c) < int (unat sz)"
  shows "lru (evict_until sz c) = []"
  using assms
proof (induction sz c rule: evict_until.induct)
  case (1 sz c)
  have big: "maxSize c <s currentSize c + sz"
    using sint_current_plus [OF "1.prems"(1,2)] "1.prems"(3) by (simp add: word_sless_alt)
  show ?case
  proof (cases "lru c = []")
    case True
    then have "evict_until sz c = c" by (intro evict_until_stop) simp
    with True show ?thesis by simp
  next
    case False
    with big have more: "maxSize c <s currentSize c + sz \<and> lru c \<noteq> []" by simp
    have le: "resident (evictOldest c) \<le> resident c" by (rule resident_evictOldest)
    have ms: "maxSize (evictOldest c) = maxSize c" by (simp add: evictOldest_def)
    have "lru (evict_until sz (evictOldest c)) = []"
      using more "1.prems" le accounted_evictOldest [OF "1.prems"(1)] by (intro "1.IH") (simp_all add: ms)
    with evict_until_more [OF more] show ?thesis by simp
  qed
qed

lemma Set_new_fits:
  assumes "accounted c" and "items c k = None"
    and "resident c + len h (Data v) < 2 ^ 63"
    and "int (len h (Data v)) \<le> sint (maxSize c)"
  shows "int (resident (Set k v h c)) \<le> sint (maxSize c)"
proof -
  let ?sz = "of_nat (len h (Data v)) :: 64 word"
  have u: "unat ?sz = len h (Data v)" using assms(3) by (simp add: unat_of_nat64)
  have r: "resident (Set k v h c) = resident (evict_until ?sz c) + len h (Data v)"
    using assms(2) u by (simp add: Set_def Let_def resident_def)
  from evict_until_fits [OF assms(1), of ?sz] assms(3) u
  have "int (resident (evict_until ?sz c)) + int (len h (Data v)) \<le> sint (maxSize c)
            \<or> lru (evict_until ?sz c) = []" by simp
  then show ?thesis
  proof
    assume "int (resident (evict_until ?sz c)) + int (len h (Data v)) \<le> sint (maxSize c)"
    with r show ?thesis by simp
  next
    assume "lru (evict_until ?sz c) = []"
    then have "resident (evict_until ?sz c) = 0" by (simp add: resident_def)
    with r assms(4) show ?thesis by simp
  qed
qed

lemma Set_new_oversized:
  assumes "accounted c" and "items c k = None"
    and "resident c + len h (Data v) < 2 ^ 63"
    and "sint (maxSize c) < int (len h (Data v))"
  shows "lru (Set k v h c) = [\<lparr>entry_key = k, entry_value = v, entry_size = of_nat (len h (Data v))\<rparr>]"
proof -
  let ?sz = "of_nat (len h (Data v)) :: 64 word"
  have u: "unat ?sz = len h (Data v)" using assms(3) by (simp add: unat_of_nat64)
  have "lru (evict_until ?sz c) = []"
    using assms u by (intro evict_until_oversized) simp_all
  with assms(2) show ?thesis by (simp add: Set_def Let_def)
qed

lemma resident_Get: "resident (snd (snd (Get k h c))) = resident c"
proof (cases k h c rule: Get_cases)
  case miss
  then show ?thesis by (simp add: resident_def)
next
  case (hit e r h')
  then have "e \<in> set (lru c)" by (simp add: items_Some_mem)
  then have "(\<Sum>x\<leftarrow>remove1 e (lru c). unat (entry_size x)) + unat (entry_size e) = (\<Sum>x\<leftarrow>lru c. unat (entry_size x))"
    by (rule sum_remove1_nat)
  with hit show ?thesis by (simp add: resident_def)
qed

lemma resident_Clear: "resident (Clear c) = 0"
  by (simp add: resident_def Clear_def)

text \<open>
  C2 (as the code has it). In every state that a sequence of \<^verbatim>\<open>Set\<close>, \<^verbatim>\<open>Get\<close> and
  \<^verbatim>\<open>Clear\<close> calls reaches from a new cache of any capacity, \<^verbatim>\<open>currentSize\<close> is the sum
  of the sizes of the resident entries. A \<^verbatim>\<open>Set\<close> of a key that is not resident, with a
  value no larger than the capacity, leaves at most the capacity resident; with a value
  larger than the capacity it evicts everything and leaves that value alone resident.
  \<^verbatim>\<open>Get\<close> leaves the resident bytes as they are and \<^verbatim>\<open>Clear\<close> makes them zero. The
  byte counts are taken below \<open>2 ^ 63\<close>, where 64-bit signed arithmetic is exact.
\<close>

theorem resident_bytes_after_Set:
  "currentSize (snd (reached ops h0 cap)) = of_nat (resident (snd (reached ops h0 cap)))
   \<and> (items (snd (reached ops h0 cap)) k = None
        \<and> resident (snd (reached ops h0 cap)) + len (fst (reached ops h0 cap)) (Data v) < 2 ^ 63
        \<and> int (len (fst (reached ops h0 cap)) (Data v)) \<le> sint cap
      \<longrightarrow> int (resident (Set k v (fst (reached ops h0 cap)) (snd (reached ops h0 cap)))) \<le> sint cap)
   \<and> (items (snd (reached ops h0 cap)) k = None
        \<and> resident (snd (reached ops h0 cap)) + len (fst (reached ops h0 cap)) (Data v) < 2 ^ 63
        \<and> sint cap < int (len (fst (reached ops h0 cap)) (Data v))
      \<longrightarrow> lru (Set k v (fst (reached ops h0 cap)) (snd (reached ops h0 cap)))
            = [\<lparr>entry_key = k, entry_value = v,
                entry_size = of_nat (len (fst (reached ops h0 cap)) (Data v))\<rparr>])
   \<and> resident (snd (snd (Get k' (fst (reached ops h0 cap)) (snd (reached ops h0 cap)))))
        = resident (snd (reached ops h0 cap))
   \<and> resident (Clear (snd (reached ops h0 cap))) = 0"
proof -
  let ?h = "fst (reached ops h0 cap)" and ?c = "snd (reached ops h0 cap)"
  have acc: "accounted ?c"
    using accounted_run [of "(h0, NewTileCache cap)" ops] by (simp add: accounted_New)
  have cap: "maxSize ?c = cap"
    using maxSize_run [of ops "(h0, NewTileCache cap)"] by (simp add: NewTileCache_def)
  have 1: "currentSize ?c = of_nat (resident ?c)" using acc by (rule accounted_resident)
  have 2: "int (resident (Set k v ?h ?c)) \<le> sint cap"
    if "items ?c k = None \<and> resident ?c + len ?h (Data v) < 2 ^ 63 \<and> int (len ?h (Data v)) \<le> sint cap"
    using Set_new_fits [OF acc, of k ?h v] that cap by simp
  have 3: "lru (Set k v ?h ?c) = [\<lparr>entry_key = k, entry_value = v, entry_size = of_nat (len ?h (Data v))\<rparr>]"
    if "items ?c k = None \<and> resident ?c + len ?h (Data v) < 2 ^ 63 \<and> sint cap < int (len ?h (Data v))"
    using Set_new_oversized [OF acc, of k ?h v] that cap by simp
  have 4: "resident (snd (snd (Get k' ?h ?c))) = resident ?c" by (rule resident_Get)
  have 5: "resident (Clear ?c) = 0" by (rule resident_Clear)
  from 1 2 3 4 5 show ?thesis by blast
qed

theorem resident_bytes_after_Set_witness:
  "items (snd (reached [OpSet ''a'' (tile 0), OpSet ''b'' (tile 1)] heap3 4)) ''c'' = None
   \<and> int (resident (Set ''c'' (tile 2) heap3
          (snd (reached [OpSet ''a'' (tile 0), OpSet ''b'' (tile 1)] heap3 4)))) \<le> sint (4 :: int64)"
proof -
  let ?ops = "[OpSet ''a'' (tile 0), OpSet ''b'' (tile 1)]"
  have r: "reached ?ops heap3 4 =
      (heap3, \<lparr>maxSize = 4, currentSize = 4,
                lru = [\<lparr>entry_key = ''b'', entry_value = tile 1, entry_size = 2\<rparr>,
                       \<lparr>entry_key = ''a'', entry_value = tile 0, entry_size = 2\<rparr>],
                hits = 0, misses = 0\<rparr>)"
    by (simp add: run_def Set_def NewTileCache_def items_def len_def bytes_def tile_def heap3_def
          heap0_def alloc_def evict_until.simps)
  have l: "len heap3 (Data (tile 2)) = 4"
    by (simp add: len_def bytes_def tile_def heap3_def heap0_def alloc_def)
  have i: "items (snd (reached ?ops heap3 4)) ''c'' = None"
    using r by (simp add: items_def)
  have s: "resident (snd (reached ?ops heap3 4)) = 4"
    using r by (simp add: resident_def)
  have f: "fst (reached ?ops heap3 4) = heap3"
    using r by simp
  from resident_bytes_after_Set [of ?ops heap3 4 "''c''" "tile 2"] i s l f
  show ?thesis by simp
qed

text \<open>
  The claim as the specification states it fails in two ways. With capacity 4, two
  entries of two bytes each fill the cache; setting the first key again with four bytes
  leaves six bytes resident, no entry larger than the capacity. With capacity 3, a single
  value of four bytes is inserted all the same.
\<close>

theorem capacity_exceeded:
  "\<not> int (resident (snd (reached [OpSet ''a'' (tile 0), OpSet ''b'' (tile 1), OpSet ''a'' (tile 2)]
            heap3 4))) \<le> sint (4 :: int64)
   \<and> \<not> int (resident (snd (reached [OpSet ''a'' (tile 2)] heap3 3))) \<le> sint (3 :: int64)"
  by (simp add: run_def Set_def NewTileCache_def items_def len_def bytes_def tile_def heap3_def
        heap0_def alloc_def evict_until.simps resident_def)

section \<open>The cache: hit and miss counters\<close>

lemma run_append: "run (ops1 @ ops2) s = run ops2 (run ops1 s)"
  by (simp add: run_def)

lemma run_Nil: "run [] s = s" by (simp add: run_def)
lemma run_Cons: "run (op # ops) s = run ops (step op s)" by (simp add: run_def)

lemma counters_Get:
  "(hits (snd (snd (Get k h c))) = hits c \<and> misses (snd (snd (Get k h c))) = misses c + 1) \<or>
   (hits (snd (snd (Get k h c))) = hits c + 1 \<and> misses (snd (snd (Get k h c))) = misses c)"
  by (cases k h c rule: Get_cases) simp_all

lemma hits_evict_until: "hits (evict_until sz c) = hits c \<and> misses (evict_until sz c) = misses c"
proof (induction sz c rule: evict_until.induct)
  case (1 sz c)
  show ?case
  proof (cases "maxSize c <s currentSize c + sz \<and> lru c \<noteq> []")
    case True
    with 1 evict_until_more [OF True] show ?thesis by (simp add: evictOldest_def)
  next
    case False
    then show ?thesis by (simp add: evict_until_stop)
  qed
qed

lemma counters_Set: "hits (Set k v h c) = hits c \<and> misses (Set k v h c) = misses c"
  by (simp add: Set_def Let_def hits_evict_until split: option.splits)

lemma counters_step:
  "\<exists>n m. n \<le> 1 \<and> m \<le> 1 \<and> hits (snd (step op s)) = hits (snd s) + of_nat n
        \<and> misses (snd (step op s)) = misses (snd s) + of_nat m"
proof (cases s)
  case (Pair h c)
  show ?thesis
  proof (cases op)
    case (OpGet k)
    obtain r h' c' where g: "Get k h c = (r, h', c')" by (cases "Get k h c")
    with counters_Get [of k h c]
    have "(hits c' = hits c + of_nat 0 \<and> misses c' = misses c + of_nat 1) \<or>
          (hits c' = hits c + of_nat 1 \<and> misses c' = misses c + of_nat 0)" by simp
    then show ?thesis using Pair OpGet g
      by (metis (no_types, lifting) le_numeral_extra(4)
           old.prod.case snd_conv step.simps(1) zero_less_one_class.zero_le_one)
  next
    case (OpSet k v)
    have "hits (Set k v h c) = hits c + of_nat 0 \<and> misses (Set k v h c) = misses c + of_nat 0"
      by (simp add: counters_Set)
    with Pair OpSet show ?thesis by (metis bot_nat_0.extremum snd_conv step.simps(2))
  next
    case OpClear
    have "hits (Clear c) = hits c + of_nat 0 \<and> misses (Clear c) = misses c + of_nat 0"
      by (simp add: Clear_def)
    with Pair OpClear show ?thesis by (metis bot_nat_0.extremum snd_conv step.simps(3))
  qed
qed

lemma counters_run:
  "\<exists>n m. n \<le> length ops \<and> m \<le> length ops \<and> hits (snd (run ops s)) = hits (snd s) + of_nat n
        \<and> misses (snd (run ops s)) = misses (snd s) + of_nat m"
proof (induction ops arbitrary: s)
  case Nil
  show ?case by (simp add: run_Nil)
next
  case (Cons op ops)
  from counters_step [of op s] obtain n1 m1 where
    1: "n1 \<le> 1" "m1 \<le> 1" "hits (snd (step op s)) = hits (snd s) + of_nat n1"
       "misses (snd (step op s)) = misses (snd s) + of_nat m1" by blast
  from Cons [of "step op s"] obtain n2 m2 where
    2: "n2 \<le> length ops" "m2 \<le> length ops"
       "hits (snd (run ops (step op s))) = hits (snd (step op s)) + of_nat n2"
       "misses (snd (run ops (step op s))) = misses (snd (step op s)) + of_nat m2" by blast
  have "n1 + n2 \<le> length (op # ops)" "m1 + m2 \<le> length (op # ops)" using 1 2 by simp_all
  moreover have "hits (snd (run (op # ops) s)) = hits (snd s) + of_nat (n1 + n2)"
    using 1 2 by (simp add: run_Cons)
  moreover have "misses (snd (run (op # ops) s)) = misses (snd s) + of_nat (m1 + m2)"
    using 1 2 by (simp add: run_Cons)
  ultimately show ?case by blast
qed

lemma word64_le_add:
  fixes x y :: "64 word"
  assumes "x = of_nat a" and "y = x + of_nat b" and "a + b < 2 ^ 64"
  shows "x \<le> y"
proof -
  have "unat x = a" using assms(1,3) by (simp add: unat_of_nat)
  moreover have "y = of_nat (a + b)" using assms(1,2) by simp
  then have "unat y = a + b" using assms(3) by (simp only: unat_of_nat) simp
  ultimately show ?thesis by (simp add: word_le_nat_alt)
qed


text \<open>
  C4 (as the code has it). Along every sequence of fewer than \<open>2 ^ 64\<close> calls on a new
  cache the hit counter and the miss counter never decrease, \<^verbatim>\<open>Clear\<close> included:
  \<^verbatim>\<open>Clear\<close> empties the cache and zeroes the resident bytes, and leaves both counters
  as they are.
\<close>

theorem counters_never_decrease:
  assumes "length (ops1 @ ops2) < 2 ^ 64"
  shows "hits (snd (reached ops1 h0 cap)) \<le> hits (snd (reached (ops1 @ ops2) h0 cap))
       \<and> misses (snd (reached ops1 h0 cap)) \<le> misses (snd (reached (ops1 @ ops2) h0 cap))
       \<and> hits (Clear c) = hits c \<and> misses (Clear c) = misses c
       \<and> currentSize (Clear c) = 0 \<and> lru (Clear c) = []"
proof -
  let ?s0 = "(h0, NewTileCache cap)"
  from counters_run [of ops1 ?s0] obtain n1 m1 where
    1: "n1 \<le> length ops1" "m1 \<le> length ops1" "hits (snd (run ops1 ?s0)) = of_nat n1"
       "misses (snd (run ops1 ?s0)) = of_nat m1" by (auto simp: NewTileCache_def)
  from counters_run [of ops2 "run ops1 ?s0"] obtain n2 m2 where
    2: "n2 \<le> length ops2" "m2 \<le> length ops2"
       "hits (snd (run (ops1 @ ops2) ?s0)) = hits (snd (run ops1 ?s0)) + of_nat n2"
       "misses (snd (run (ops1 @ ops2) ?s0)) = misses (snd (run ops1 ?s0)) + of_nat m2"
    by (auto simp: run_append)
  have "n1 + n2 < 2 ^ 64" "m1 + m2 < 2 ^ 64" using 1 2 assms by simp_all
  then have "hits (snd (run ops1 ?s0)) \<le> hits (snd (run (ops1 @ ops2) ?s0))"
    and "misses (snd (run ops1 ?s0)) \<le> misses (snd (run (ops1 @ ops2) ?s0))"
    using word64_le_add 1 2 by blast+
  then show ?thesis by (simp add: Clear_def)
qed

theorem counters_never_decrease_witness:
  "length ([OpGet ''k''] @ [OpClear, OpGet ''k'']) < 2 ^ 64
   \<and> misses (snd (reached [OpGet ''k''] heap0 4))
       \<le> misses (snd (reached ([OpGet ''k''] @ [OpClear, OpGet ''k'']) heap0 4))"
proof -
  have h: "length ([OpGet ''k''] @ [OpClear, OpGet ''k'']) < 2 ^ 64" by simp
  from counters_never_decrease [OF h, of heap0 4] h show ?thesis by blast
qed

text \<open>
  The claim as the specification states it fails: after one missed \<^verbatim>\<open>Get\<close> the miss
  counter is 1, and it is still 1 after \<^verbatim>\<open>Clear\<close>.
\<close>

theorem Clear_keeps_counters:
  "misses (snd (reached [OpGet ''k'', OpClear] heap0 4)) = 1
   \<and> currentSize (snd (reached [OpGet ''k'', OpClear] heap0 4)) = 0"
  by (simp add: run_def Get_def Clear_def NewTileCache_def items_def)

section \<open>The cache: what \<^verbatim>\<open>Get\<close> returns is a copy\<close>

lemma items_Set: "\<exists>e. items (Set k v h c) k = Some e \<and> entry_value e = v \<and> entry_key e = k"
proof (cases "items c k")
  case None
  then show ?thesis by (simp add: Set_def Let_def items_def)
next
  case (Some e)
  then have "entry_key e = k" by (simp add: items_Some_mem)
  with Some show ?thesis by (simp add: Set_def Let_def items_def)
qed

lemma lru_evictOldest: "set (lru (evictOldest c)) \<subseteq> set (lru c)"
  by (auto simp: evictOldest_def dest: in_set_butlastD)

lemma lru_evict_until: "set (lru (evict_until sz c)) \<subseteq> set (lru c)"
proof (induction sz c rule: evict_until.induct)
  case (1 sz c)
  show ?case
  proof (cases "maxSize c <s currentSize c + sz \<and> lru c \<noteq> []")
    case True
    with 1 have "set (lru (evict_until sz (evictOldest c))) \<subseteq> set (lru (evictOldest c))" by simp
    with lru_evictOldest [of c] evict_until_more [OF True] show ?thesis by auto
  next
    case False
    then show ?thesis by (simp add: evict_until_stop)
  qed
qed

lemma lru_Set_allocated:
  assumes "cache_allocated h c" and "allocated h (Data v)"
  shows "cache_allocated h (Set k v h c)"
proof (cases "items c k")
  case None
  have "\<forall>e \<in> set (lru (evict_until (of_nat (len h (Data v))) c)). allocated h (Data (entry_value e))"
    using assms(1) lru_evict_until [of "of_nat (len h (Data v))" c]
    by (auto simp: cache_allocated_def list_all_iff)
  with None assms(2) show ?thesis
    by (simp add: Set_def Let_def cache_allocated_def list_all_iff)
next
  case (Some e)
  have "\<forall>x \<in> set (remove1 e (lru c)). allocated h (Data (entry_value x))"
    using assms(1) set_remove1_subset [of e "lru c"]
    by (auto simp: cache_allocated_def list_all_iff)
  with Some assms(2) show ?thesis
    by (simp add: Set_def Let_def cache_allocated_def list_all_iff)
qed

lemma append_nil_bytes:
  "append_nil h s = (d, h') \<Longrightarrow> bytes h' d = bytes h s"
  by (auto simp: append_nil_def alloc_def bytes_def split: if_splits option.splits)

lemma append_nil_fresh:
  "append_nil h s = (d, h') \<Longrightarrow> d = None \<or> d = Some (fresh h)"
  by (auto simp: append_nil_def alloc_def split: if_splits)

lemma append_nil_frame:
  "append_nil h s = (d, h') \<Longrightarrow> allocated h s' \<Longrightarrow> bytes h' s' = bytes h s'"
  by (auto simp: append_nil_def alloc_def bytes_def allocated_def split: if_splits option.splits)

lemma Get_hit:
  assumes "items c k = Some e"
  shows "\<exists>d h'. append_nil h (Data (entry_value e)) = (d, h') \<and>
     Get k h c = (Some \<lparr>Data = d, resp_Width = resp_Width (entry_value e),
                      resp_Height = resp_Height (entry_value e),
                      ContentType = ContentType (entry_value e),
                      CacheKey = CacheKey (entry_value e)\<rparr>, h',
                  c\<lparr>hits := hits c + 1, lru := e # remove1 e (lru c)\<rparr>)"
proof -
  obtain d h' where "append_nil h (Data (entry_value e)) = (d, h')"
    by (cases "append_nil h (Data (entry_value e))")
  with assms show ?thesis by (simp add: Get_def)
qed

lemma items_after_hit:
  "items c k = Some e \<Longrightarrow> items (c\<lparr>hits := n, lru := e # remove1 e (lru c)\<rparr>) k = Some e"
  using items_Some_mem [of c k e] by (simp add: items_def)


text \<open>
  C8. After \<^verbatim>\<open>Set(k, v)\<close>, \<^verbatim>\<open>Get(k)\<close> returns a response whose bytes equal those of
  \<open>v\<close> and whose data is no array of the cache: whatever is written afterwards into
  the returned array (any store that differs from the one after the call at the returned
  address only), the next \<^verbatim>\<open>Get(k)\<close> returns the bytes of \<open>v\<close> again. The value and
  the entries of the cache refer to arrays that exist.
\<close>

theorem Get_returns_copy:
  assumes "allocated h (Data v)" and "cache_allocated h c"
  shows "case Get k h (Set k v h c) of (r, h1, c1) \<Rightarrow>
     (\<exists>resp. r = Some resp \<and> bytes h1 (Data resp) = bytes h (Data v)
        \<and> (Data resp \<noteq> None \<longrightarrow> list_all (\<lambda>e. Data (entry_value e) \<noteq> Data resp) (lru c1))
        \<and> (\<forall>h2. (\<forall>a. Some a \<noteq> Data resp \<longrightarrow> arrays h2 a = arrays h1 a) \<longrightarrow>
              (case Get k h2 c1 of (r2, h3, c2) \<Rightarrow>
                 \<exists>resp2. r2 = Some resp2 \<and> bytes h3 (Data resp2) = bytes h (Data v))))"
proof -
  let ?c0 = "Set k v h c"
  obtain e where e: "items ?c0 k = Some e" "entry_value e = v"
    using items_Set by blast
  from Get_hit [OF e(1), of h] e(2) obtain d h1 where
    a: "append_nil h (Data v) = (d, h1)" and
    g: "Get k h ?c0 = (Some \<lparr>Data = d, resp_Width = resp_Width v, resp_Height = resp_Height v,
                      ContentType = ContentType v, CacheKey = CacheKey v\<rparr>, h1,
                  ?c0\<lparr>hits := hits ?c0 + 1, lru := e # remove1 e (lru ?c0)\<rparr>)"
    by auto
  let ?c1 = "?c0\<lparr>hits := hits ?c0 + 1, lru := e # remove1 e (lru ?c0)\<rparr>"
  have b1: "bytes h1 d = bytes h (Data v)" using a by (rule append_nil_bytes)
  have fr: "d = None \<or> d = Some (fresh h)" using a by (rule append_nil_fresh)
  have ca: "cache_allocated h ?c0" using assms by (intro lru_Set_allocated)
  have noalias: "d \<noteq> None \<longrightarrow> list_all (\<lambda>e. Data (entry_value e) \<noteq> d) (lru ?c1)"
  proof
    assume "d \<noteq> None"
    with fr have d: "d = Some (fresh h)" by simp
    have "\<forall>x \<in> set (lru ?c0). Data (entry_value x) \<noteq> Some (fresh h)"
      using ca by (auto simp: cache_allocated_def list_all_iff allocated_def)
    moreover have "set (lru ?c1) \<subseteq> set (lru ?c0)"
      using items_Some_mem [OF e(1)] set_remove1_subset [of e "lru ?c0"] by auto
    ultimately show "list_all (\<lambda>e. Data (entry_value e) \<noteq> d) (lru ?c1)"
      using d by (auto simp: list_all_iff)
  qed
  have again: "case Get k h2 ?c1 of (r2, h3, c2) \<Rightarrow>
                 \<exists>resp2. r2 = Some resp2 \<and> bytes h3 (Data resp2) = bytes h (Data v)"
    if h2: "\<forall>a. Some a \<noteq> d \<longrightarrow> arrays h2 a = arrays h1 a" for h2
  proof -
    have i1: "items ?c1 k = Some e" using e(1) by (rule items_after_hit)
    from Get_hit [OF i1, of h2] e(2) obtain d2 h3 where
      a2: "append_nil h2 (Data v) = (d2, h3)" and
      g2: "Get k h2 ?c1 = (Some \<lparr>Data = d2, resp_Width = resp_Width v, resp_Height = resp_Height v,
                      ContentType = ContentType v, CacheKey = CacheKey v\<rparr>, h3,
                  ?c1\<lparr>hits := hits ?c1 + 1, lru := e # remove1 e (lru ?c1)\<rparr>)"
      by auto
    have "bytes h3 d2 = bytes h2 (Data v)" using a2 by (rule append_nil_bytes)
    also have "bytes h2 (Data v) = bytes h1 (Data v)"
    proof (cases "Data v")
      case None
      then show ?thesis by (simp add: bytes_def)
    next
      case (Some a0)
      with assms(1) have "a0 < fresh h" by (simp add: allocated_def)
      with fr have "Some a0 \<noteq> d" by auto
      with h2 Some show ?thesis by (simp add: bytes_def)
    qed
    also have "\<dots> = bytes h (Data v)" using a assms(1) by (rule append_nil_frame)
    finally show ?thesis using g2 by simp
  qed
  let ?R = "\<lparr>Data = d, resp_Width = resp_Width v, resp_Height = resp_Height v,
                      ContentType = ContentType v, CacheKey = CacheKey v\<rparr>"
  have main: "\<exists>resp. Some ?R = Some resp \<and> bytes h1 (Data resp) = bytes h (Data v)
        \<and> (Data resp \<noteq> None \<longrightarrow> list_all (\<lambda>e. Data (entry_value e) \<noteq> Data resp) (lru ?c1))
        \<and> (\<forall>h2. (\<forall>a. Some a \<noteq> Data resp \<longrightarrow> arrays h2 a = arrays h1 a) \<longrightarrow>
              (case Get k h2 ?c1 of (r2, h3, c2) \<Rightarrow>
                 \<exists>resp2. r2 = Some resp2 \<and> bytes h3 (Data resp2) = bytes h (Data v)))"
  proof (intro exI [of _ ?R] conjI allI impI)
    show "Some ?R = Some ?R" by simp
    show "bytes h1 (Data ?R) = bytes h (Data v)" using b1 by simp
    show "list_all (\<lambda>e. Data (entry_value e) \<noteq> Data ?R) (lru ?c1)" if "Data ?R \<noteq> None"
      using that noalias by simp
    show "case Get k h2 ?c1 of (r2, h3, c2) \<Rightarrow>
                 \<exists>resp2. r2 = Some resp2 \<and> bytes h3 (Data resp2) = bytes h (Data v)"
      if "\<forall>a. Some a \<noteq> Data ?R \<longrightarrow> arrays h2 a = arrays h1 a" for h2
      using that by (intro again) simp
  qed
  show ?thesis unfolding g prod.case by (rule main)
qed

theorem Get_returns_copy_witness:
  "allocated heap3 (Data (tile 2)) \<and> cache_allocated heap3 (NewTileCache 10)
   \<and> (case Get ''k'' heap3 (Set ''k'' (tile 2) heap3 (NewTileCache 10)) of
        (r, h1, c1) \<Rightarrow> \<exists>resp. r = Some resp \<and> bytes h1 (Data resp) = [1, 2, 3, 4])"
proof -
  have a: "allocated heap3 (Data (tile 2))"
    by (simp add: allocated_def tile_def heap3_def heap0_def alloc_def)
  have c: "cache_allocated heap3 (NewTileCache 10)"
    by (simp add: cache_allocated_def NewTileCache_def)
  have b: "bytes heap3 (Data (tile 2)) = [1, 2, 3, 4]"
    by (simp add: bytes_def tile_def heap3_def heap0_def alloc_def)
  from Get_returns_copy [OF a c, of "''k''"] a c b show ?thesis
    by (cases "Get ''k'' heap3 (Set ''k'' (tile 2) heap3 (NewTileCache 10))") auto
qed

section \<open>The tile processor as the code has it\<close>



lemma ProcessTile_eq:
  "ProcessTile env req (h, p) =
     (case Get (cacheKey req) h (tileCache p) of
        (Some r, h1, c1) \<Rightarrow> (Inr r, h1, p\<lparr>tileCache := c1\<rparr>)
      | (None, h1, c1) \<Rightarrow> (Inl load_error, h1, p\<lparr>tileCache := c1\<rparr>))"
  by (simp add: ProcessTile_def loadRawTile_def load_error_def split: prod.splits option.splits)





text \<open>
  No call of \<^verbatim>\<open>ProcessTile\<close> reaches the part that follows the loading of the raw
  tile, and the buffer pool is after every call what it was before. In that part, the
  return after a failed copy from the GPU leaves the buffer it took out of the pool.
\<close>

lemma ProcessTile_pool_unchanged:
  "bufferPool (snd (snd (ProcessTile env req st))) = bufferPool (snd st)"
  by (cases st) (simp add: ProcessTile_eq split: prod.splits option.splits)

lemma process_loaded_copy_back_fails:
  assumes "mallocInput (cuda env req)" and "mallocOutput (cuda env req)" and "rawData \<noteq> []"
    and "copyToGPU (cuda env req)" and "streamSync (cuda env req)"
    and "0 < tileSize req" and "tileSize req \<le> buffer_cap"
    and "\<not> copyFromGPU (cuda env req)"
  shows "process_loaded env req rawData h c p
         = (Inl (Errorf ''failed to copy from GPU''), h,
            p\<lparr>bufferPool := snd (pool_Get (bufferPool p))\<rparr>)"
  using assms by (simp add: process_loaded_def split: prod.splits)

section \<open>The steps of a worker\<close>









section \<open>The invariant of a batch\<close>














section \<open>Every batch returns\<close>




















section \<open>The outcome of a batch\<close>










lemma formatInt_0: "formatInt 0 = ''0''"
  by code_simp

lemma cacheKey_demo: "cacheKey (demo_request s f q) = s @ '':0:0:0:0''"
  by (simp add: cacheKey_def demo_request_def formatInt_0)


lemma warm_cache_Set:
  "warm_cache [(demo_request ''a'' ''webp'' 85, 2), (demo_request ''c'' ''webp'' 85, 1)]
   = Set (cacheKey (demo_request ''a'' ''webp'' 85)) (tile 2) heap3
       (Set (cacheKey (demo_request ''c'' ''webp'' 85)) (tile 1) heap3 (NewTileCache 1024))"
  by (simp add: warm_cache_def Set_def items_def NewTileCache_def evict_until_stop cacheKey_demo
        heap3_def heap0_def alloc_def len_def bytes_def tile_def Let_def word_sless_alt)




section \<open>The defaults of a request\<close>



section \<open>The scanner: receiving a scan\<close>

text \<open>
  A read returns no more bytes than the buffer holds, so the header buffer has its 32
  bytes whatever the read returned, and every field is decoded from four bytes.
\<close>

lemma Read_at_most: "Read n evs = (Inr bs, evs') \<Longrightarrow> length bs \<le> n"
proof (cases evs)
  case Nil
  assume "Read n evs = (Inr bs, evs')"
  with Nil show ?thesis by simp
next
  case (Cons ev rest)
  assume "Read n evs = (Inr bs, evs')"
  with Cons show ?thesis by (cases ev) (auto split: if_splits)
qed

lemma header_buffer_length:
  "Read 32 evs = (Inr bs, evs') \<Longrightarrow> length (bs @ replicate (32 - length bs) 0) = 32"
  by (drule Read_at_most) simp

text \<open>
  The loop that reads the image data does read the length the header declares, however
  the bytes are cut into reads: a short read is followed by another. The context is
  tested before each read, and a done context ends the loop with the connection
  untouched.
\<close>

lemma read_data_done:
  "\<not> length buf < n \<Longrightarrow> read_data ctx evs n buf = (Inr buf, ctx, evs)"
  by (subst read_data.simps) simp

lemma read_data_cancelled:
  "length buf < n \<Longrightarrow> ctx_Err ctx = Some e \<Longrightarrow> read_data ctx evs n buf = (Inl e, ctx, evs)"
  by (subst read_data.simps) simp

lemma read_data_step:
  "length buf < n \<Longrightarrow> Read (n - length buf) evs = (Inr bs, evs') \<Longrightarrow>
   read_data Never evs n buf = read_data Never evs' n (buf @ bs)"
  by (subst read_data.simps) simp

lemma read_data_reads_all:
  assumes "length buf \<le> n" and "n \<le> length buf + length (concat cs)"
  shows "fst (read_data Never (map Chunk cs @ rest) n buf) = Inr (take n (buf @ concat cs))"
  using assms
proof (induction cs arbitrary: buf)
  case Nil
  then have "length buf = n" by simp
  then show ?case by (simp add: read_data_done)
next
  case (Cons c cs)
  show ?case
  proof (cases "length buf < n")
    case False
    with Cons.prems have "length buf = n" by simp
    then show ?thesis by (simp add: read_data_done)
  next
    case True
    show ?thesis
    proof (cases "length c \<le> n - length buf")
      case fits: True
      then have r: "Read (n - length buf) (map Chunk (c # cs) @ rest) = (Inr c, map Chunk cs @ rest)"
        by simp
      have "fst (read_data Never (map Chunk cs @ rest) n (buf @ c)) = Inr (take n ((buf @ c) @ concat cs))"
        using fits True Cons.prems by (intro Cons.IH) simp_all
      then show ?thesis by (simp only: read_data_step [OF True r]) simp
    next
      case False
      then have r: "Read (n - length buf) (map Chunk (c # cs) @ rest)
          = (Inr (take (n - length buf) c), Chunk (drop (n - length buf) c) # map Chunk cs @ rest)"
        by simp
      have full: "\<not> length (buf @ take (n - length buf) c) < n" using False True by simp
      show ?thesis
        using False True by (simp only: read_data_step [OF True r] read_data_done [OF full]) simp
    qed
  qed
qed

lemma receiveLayerData_connected:
  "connected (snd (snd (receiveLayerData ctx s))) = connected s"
proof (cases "Read 32 (incoming (conn s))")
  case (Pair r evs)
  show ?thesis
  proof (cases r)
    case (Inl err)
    with Pair show ?thesis by (simp add: receiveLayerData_def)
  next
    case (Inr bs)
    obtain r' ctx' evs' where
      "read_data ctx evs (Uint32 (drop 28 (bs @ replicate (32 - length bs) 0))) [] = (r', ctx', evs')"
      by (metis prod_cases3)
    with Pair Inr show ?thesis
      by (cases r') (simp_all add: receiveLayerData_def Let_def)
  qed
qed

lemma receive_layers_result:
  "case receive_layers ls ctx s acc of
     (Inl err, ctx', s') \<Rightarrow> connected s' = connected s
   | (Inr layers, ctx', s') \<Rightarrow>
       connected s' = connected s \<and> length layers = length acc + length ls"
proof (induction ls arbitrary: ctx s acc)
  case Nil
  show ?case by simp
next
  case (Cons l ls)
  obtain r ctx1 s1 where rl: "receiveLayerData ctx s = (r, ctx1, s1)"
    by (metis prod_cases3)
  with receiveLayerData_connected [of ctx s] have c1: "connected s1 = connected s" by simp
  show ?case
  proof (cases r)
    case (Inl err)
    with rl c1 show ?thesis by simp
  next
    case (Inr layerData)
    from Cons.IH [where ctx = ctx1 and s = s1 and acc = "acc @ [layerData]"] c1 rl Inr show ?thesis
      by (auto split: prod.splits sum.splits)
  qed
qed

lemma sendCommand_connected:
  "sendCommand cmd data s = (w, s1) \<Longrightarrow> connected s1 = connected s"
  by (auto simp: sendCommand_def split: prod.splits)

lemma StartScan_connected_unchanged:
  "connected (snd (snd (StartScan now ctx req s))) = connected s"
proof (cases "connected s")
  case False
  then show ?thesis by (simp add: StartScan_def)
next
  case True
  obtain w s1 where sc: "sendCommand CMD_SCAN (scan_command req) s = (w, s1)"
    by (cases "sendCommand CMD_SCAN (scan_command req) s")
  then have c1: "connected s1 = connected s" by (rule sendCommand_connected)
  show ?thesis
  proof (cases w)
    case (Some err)
    with True sc c1 show ?thesis by (simp add: StartScan_def Let_def)
  next
    case None
    obtain r ctx2 s2 where rl: "receive_layers (scan_Layers req) ctx s1 [] = (r, ctx2, s2)"
      by (metis prod_cases3)
    with receive_layers_result [where ls = "scan_Layers req" and ctx = ctx and s = s1 and acc = "[]"] c1
    show ?thesis using True sc None
      by (cases r) (simp_all add: StartScan_def Let_def)
  qed
qed

lemma replicate_numeral_unfold:
  "replicate (numeral k) x = x # replicate (pred_numeral k) x"
  by (simp add: numeral_eq_Suc)

text \<open>
  C5 at a failing input. The 32 bytes of a layer header arrive in two reads of 16 bytes.
  \<^verbatim>\<open>receiveLayerData\<close> takes the first 16 for the whole header: the fields of the
  second half are zero, the data length among them, no image data is read, and the second
  half of the header and the data stay unread on the connection. The same bytes arriving
  with the header in one piece, the data in two, are received in full.
\<close>

theorem receiveLayerData_split_header:
  "receiveLayerData Never
      (scanner_on [Chunk (take 16 header_bytes), Chunk (drop 16 header_bytes), Chunk [7, 8, 9]])
   = (Inr \<lparr>ld_Layer = 1, RawData = [], ld_Width = 2, ld_Height = 2, TilesX = 1, TilesY = 0,
           TileSize = 0, Compressed = False\<rparr>,
      Never, scanner_on [Chunk (drop 16 header_bytes), Chunk [7, 8, 9]])
   \<and> receiveLayerData Never (scanner_on [Chunk header_bytes, Chunk [7], Chunk [8, 9]])
   = (Inr \<lparr>ld_Layer = 1, RawData = [7, 8, 9], ld_Width = 2, ld_Height = 2, TilesX = 1, TilesY = 1,
           TileSize = 512, Compressed = True\<rparr>,
      Never, scanner_on [])"
proof -
  have whole: "read_data Never [Chunk [7], Chunk [8, 9]] 3 [] = (Inr [7, 8, 9], Never, [])"
    by code_simp
  have none: "read_data Never evs 0 [] = (Inr [], Never, evs)" for evs
    by (subst read_data.simps) simp
  show ?thesis
    by (simp add: receiveLayerData_def scanner_on_def header_bytes_def Let_def whole none
          replicate_numeral_unfold)
qed

section \<open>The scanner: a scan that breaks\<close>

text \<open>
  A context that is done stays done, and one that is not yet done is done one test
  sooner after a test.
\<close>

lemma done_within_0: "done_within ctx 0 = ctx_Err ctx"
proof (cases ctx)
  case Never
  then show ?thesis by simp
next
  case (DoneAfter k e)
  then show ?thesis by (cases k) simp_all
qed

lemma done_within_Suc:
  "ctx_Err ctx = None \<Longrightarrow> done_within ctx (Suc j) = done_within (tick ctx) j"
proof (cases ctx)
  case Never
  then show ?thesis by simp
next
  case (DoneAfter k e)
  assume "ctx_Err ctx = None"
  with DoneAfter show ?thesis by (cases k) simp_all
qed

lemma done_within_later:
  "ctx_Err ctx = Some e \<Longrightarrow> done_within ctx j = Some e"
proof (cases ctx)
  case Never
  assume "ctx_Err ctx = Some e"
  with Never show ?thesis by simp
next
  case (DoneAfter k e')
  assume "ctx_Err ctx = Some e"
  with DoneAfter show ?thesis by (cases k) simp_all
qed

lemma Read_stream_error:
  "stream_error evs = Some e \<Longrightarrow> fst (Read n evs) = Inl e"
proof (cases evs)
  case Nil
  assume "stream_error evs = Some e"
  with Nil show ?thesis by simp
next
  case (Cons ev rest)
  assume "stream_error evs = Some e"
  with Cons show ?thesis by (cases ev) simp_all
qed

lemma read_data_fails:
  "length buf < n \<Longrightarrow> ctx_Err ctx = None \<Longrightarrow> fst (Read (n - length buf) evs) = Inl e \<Longrightarrow>
   fst (read_data ctx evs n buf) = Inl e"
  by (subst read_data.simps) (auto split: prod.splits sum.splits)

lemma read_data_more:
  "length buf < n \<Longrightarrow> ctx_Err ctx = None \<Longrightarrow> Read (n - length buf) evs = (Inr bs, evs') \<Longrightarrow>
   read_data ctx evs n buf = read_data (tick ctx) evs' n (buf @ bs)"
  by (subst read_data.simps) simp

lemma read_data_breaks:
  assumes "length buf + length (concat cs) < n" and "stream_error rest = Some e"
  shows "fst (read_data ctx (map Chunk cs @ rest) n buf)
         = Inl (case done_within ctx (length cs) of Some ce \<Rightarrow> ce | None \<Rightarrow> e)"
  using assms(1)
proof (induction cs arbitrary: ctx buf)
  case Nil
  then have short: "length buf < n" by simp
  show ?case
  proof (cases "ctx_Err ctx")
    case (Some ce)
    with short show ?thesis by (simp add: read_data_cancelled done_within_0)
  next
    case None
    from read_data_fails [OF short None Read_stream_error [OF assms(2)]] None
    show ?thesis by (simp add: done_within_0)
  qed
next
  case (Cons c cs)
  then have short: "length buf < n" by simp
  show ?case
  proof (cases "ctx_Err ctx")
    case (Some ce)
    with short show ?thesis by (simp add: read_data_cancelled done_within_later)
  next
    case None
    from Cons.prems have r: "Read (n - length buf) (map Chunk (c # cs) @ rest) = (Inr c, map Chunk cs @ rest)"
      by simp
    from Cons.prems have "length (buf @ c) + length (concat cs) < n" by simp
    from Cons.IH [OF this, of "tick ctx"] show ?thesis
      by (simp only: read_data_more [OF short None r]) (simp add: done_within_Suc [OF None])
  qed
qed

lemma chunks_of_stream:
  "map Chunk (map chunk_bytes (takeWhile is_Chunk evs)) @ dropWhile is_Chunk evs = evs"
proof (induction evs)
  case Nil
  show ?case by simp
next
  case (Cons ev evs)
  then show ?case by (cases ev) simp_all
qed

lemma stream_error_after_chunks: "\<exists>e. stream_error (dropWhile is_Chunk evs) = Some e"
proof (induction evs)
  case Nil
  show ?case by simp
next
  case (Cons ev evs)
  then show ?case by (cases ev) simp_all
qed

lemma payload_reads_0: "payload_reads 0 cs = 0"
  by (cases cs) simp_all

lemma payload_reads_pos:
  "0 < n \<Longrightarrow> n \<le> length (concat cs) \<Longrightarrow> 0 < payload_reads n cs"
  by (cases cs) simp_all

lemma read_data_cancelled_late:
  assumes "length buf < n" and "n \<le> length buf + length (concat cs)"
    and "done_within ctx (payload_reads (n - length buf) cs - 1) = Some e"
  shows "fst (read_data ctx (map Chunk cs @ rest) n buf) = Inl e"
  using assms
proof (induction cs arbitrary: ctx buf)
  case Nil
  then show ?case by simp
next
  case (Cons c cs)
  from Cons.prems(1) have need: "0 < n - length buf" by simp
  show ?case
  proof (cases "ctx_Err ctx")
    case (Some ce)
    with Cons.prems(3) have "ce = e" by (simp add: done_within_later)
    with Some Cons.prems(1) show ?thesis by (simp add: read_data_cancelled)
  next
    case None
    show ?thesis
    proof (cases "length (buf @ c) < n")
      case True
      then have r: "Read (n - length buf) (map Chunk (c # cs) @ rest) = (Inr c, map Chunk cs @ rest)"
        by simp
      from True Cons.prems(2) have more: "0 < n - length (buf @ c)"
        "n - length (buf @ c) \<le> length (concat cs)" by simp_all
      then have "0 < payload_reads (n - length (buf @ c)) cs" by (rule payload_reads_pos)
      then obtain p where p: "payload_reads (n - length (buf @ c)) cs = Suc p"
        by (cases "payload_reads (n - length (buf @ c)) cs") simp_all
      with need Cons.prems(3) have "done_within ctx (Suc p) = Some e" by simp
      with None p have "done_within (tick ctx) (payload_reads (n - length (buf @ c)) cs - 1) = Some e"
        by (simp add: done_within_Suc)
      with True Cons.prems(2)
      have "fst (read_data (tick ctx) (map Chunk cs @ rest) n (buf @ c)) = Inl e"
        by (intro Cons.IH) simp_all
      then show ?thesis by (simp only: read_data_more [OF Cons.prems(1) None r])
    next
      case False
      then have "payload_reads (n - length buf - length c) cs = 0"
        by (simp add: payload_reads_0)
      with need Cons.prems(3) have "done_within ctx 0 = Some e" by simp
      with None show ?thesis by (simp add: done_within_0)
    qed
  qed
qed

lemma data_break_read_data:
  assumes "data_break ctx evs n = Some e"
  shows "fst (read_data ctx evs n []) = Inl e"
proof -
  let ?cs = "map chunk_bytes (takeWhile is_Chunk evs)"
  show ?thesis
  proof (cases "length (concat ?cs) < n")
    case True
    then have short: "length ([] :: byte list) + length (concat ?cs) < n" by simp
    obtain e' where se: "stream_error (dropWhile is_Chunk evs) = Some e'"
      using stream_error_after_chunks by blast
    from assms True se
    have e: "e = (case done_within ctx (length ?cs) of Some ce \<Rightarrow> ce | None \<Rightarrow> e')"
      by (simp add: data_break_def Let_def split: option.splits)
    from read_data_breaks [OF short se, of ctx] show ?thesis
      by (simp only: chunks_of_stream e)
  next
    case False
    with assms have n: "0 < n"
      and d: "done_within ctx (payload_reads n ?cs - 1) = Some e"
      by (simp_all add: data_break_def Let_def split: if_splits)
    from n have 1: "length ([] :: byte list) < n" by simp
    from False have 2: "n \<le> length ([] :: byte list) + length (concat ?cs)" by simp
    from d have 3: "done_within ctx (payload_reads (n - length ([] :: byte list)) ?cs - 1) = Some e"
      by simp
    from read_data_cancelled_late [OF 1 2 3, of "dropWhile is_Chunk evs"] show ?thesis
      by (simp only: chunks_of_stream)
  qed
qed

lemma layer_break_receiveLayerData:
  assumes "layer_break ctx (incoming (conn s)) = Some e"
  shows "fst (receiveLayerData ctx s) = Inl e"
proof (cases "incoming (conn s)")
  case Nil
  with assms show ?thesis by (simp add: receiveLayerData_def)
next
  case (Cons ev evs)
  show ?thesis
  proof (cases ev)
    case (Fail e')
    with Cons assms show ?thesis by (simp add: receiveLayerData_def)
  next
    case (Chunk c)
    with Cons assms have long: "\<not> length c < 32"
      and db: "data_break ctx (if length c = 32 then evs else Chunk (drop 32 c) # evs)
                 (Uint32 (drop 28 (take 32 c))) = Some e"
      by (simp_all split: if_splits)
    show ?thesis
    proof (cases "length c = 32")
      case True
      with db have "fst (read_data ctx evs (Uint32 (drop 28 c)) []) = Inl e"
        using data_break_read_data [of ctx evs "Uint32 (drop 28 c)" e] by simp
      with Cons Chunk True show ?thesis
        by (auto simp: receiveLayerData_def Let_def split: prod.splits sum.splits)
    next
      case False
      with db have "fst (read_data ctx (Chunk (drop 32 c) # evs) (Uint32 (drop 28 (take 32 c))) [])
          = Inl e"
        using data_break_read_data [of ctx "Chunk (drop 32 c) # evs" "Uint32 (drop 28 (take 32 c))" e]
        by simp
      with Cons Chunk False long show ?thesis
        by (auto simp: receiveLayerData_def Let_def split: prod.splits sum.splits)
    qed
  qed
qed

lemma receive_layers_append:
  "receive_layers ls1 ctx s acc = (Inr got, ctx1, s1) \<Longrightarrow>
   receive_layers (ls1 @ ls2) ctx s acc = receive_layers ls2 ctx1 s1 got"
proof (induction ls1 arbitrary: ctx s acc)
  case Nil
  then show ?case by simp
next
  case (Cons l ls1)
  then show ?case by (auto split: prod.splits sum.splits)
qed

lemma receive_layers_breaks:
  assumes "receive_layers ls1 ctx s acc = (Inr got, ctx1, s1)"
    and "layer_break ctx1 (incoming (conn s1)) = Some e"
  shows "fst (receive_layers (ls1 @ l # ls2) ctx s acc)
         = Inl (Wrapf ''failed to receive layer data'' e)"
proof -
  from layer_break_receiveLayerData [OF assms(2)]
  have "fst (receive_layers (l # ls2) ctx1 s1 got) = Inl (Wrapf ''failed to receive layer data'' e)"
    by (auto split: prod.splits sum.splits)
  then show ?thesis by (simp only: receive_layers_append [OF assms(1)])
qed

text \<open>
  C6 (as the code has it). When the scanner is connected and the command is sent, and
  the reception of a layer breaks after some layers were received whole (a read returns
  an error or the end of the stream where a header is due or before the image data are
  complete, or the context is found done by the test before a read of image data), then
  the scan is aborted: \<^verbatim>\<open>StartScan\<close> returns that error, wrapped, and none of the layers
  received before it. The scanner is still marked connected.
\<close>

theorem StartScan_aborts_on_broken_stream:
  assumes "connected s"
    and "sendCommand CMD_SCAN (scan_command req) s = (None, s1)"
    and "scan_Layers req = ls1 @ l # ls2"
    and "receive_layers ls1 ctx s1 [] = (Inr got, ctx1, s2)"
    and "layer_break ctx1 (incoming (conn s2)) = Some e"
  shows "fst (StartScan now ctx req s) = Inl (Wrapf ''failed to receive layer data'' e)
         \<and> connected (snd (snd (StartScan now ctx req s)))"
proof -
  from receive_layers_breaks [OF assms(4) assms(5), of l ls2] assms(3)
  have "fst (receive_layers (scan_Layers req) ctx s1 []) = Inl (Wrapf ''failed to receive layer data'' e)"
    by simp
  with assms(1) assms(2)
  have "fst (StartScan now ctx req s) = Inl (Wrapf ''failed to receive layer data'' e)"
    by (auto simp: StartScan_def Let_def split: prod.splits sum.splits)
  moreover have "connected (snd (snd (StartScan now ctx req s)))"
    using assms(1) by (simp only: StartScan_connected_unchanged)
  ultimately show ?thesis by simp
qed


text \<open>
  Two layers are requested and the first arrives whole, its data in two reads. In the
  first scan the stream ends one byte into the data of the second layer. In the second
  scan all the data of the second layer are there and the context lets three tests pass:
  it is found done before the second read of those data.
\<close>

theorem StartScan_aborts_on_broken_stream_witness:
  "fst (StartScan 0 Never
          \<lparr>StartX = 0, StartY = 0, scan_Width = 1, scan_Height = 1, scan_Layers = [0, 1]\<rparr>
          (scanner_on [Chunk header_bytes, Chunk [7, 8], Chunk [9], Chunk header_bytes, Chunk [7]]))
     = Inl (Wrapf ''failed to receive layer data'' EOF)
   \<and> connected (snd (snd (StartScan 0 Never
          \<lparr>StartX = 0, StartY = 0, scan_Width = 1, scan_Height = 1, scan_Layers = [0, 1]\<rparr>
          (scanner_on [Chunk header_bytes, Chunk [7, 8], Chunk [9], Chunk header_bytes, Chunk [7]]))))
   \<and> fst (StartScan 0 (DoneAfter 3 Canceled)
          \<lparr>StartX = 0, StartY = 0, scan_Width = 1, scan_Height = 1, scan_Layers = [0, 1]\<rparr>
          (scanner_on [Chunk header_bytes, Chunk [7, 8], Chunk [9], Chunk header_bytes, Chunk [7],
                       Chunk [8, 9]]))
     = Inl (Wrapf ''failed to receive layer data'' Canceled)"
proof -
  let ?req = "\<lparr>StartX = 0, StartY = 0, scan_Width = 1, scan_Height = 1, scan_Layers = [0, 1]\<rparr>"
  let ?out = "[CMD_SCAN] @ PutUint32 (of_nat (length (scan_command ?req))) @ scan_command ?req"
  let ?layer = "\<lparr>ld_Layer = 1, RawData = [7, 8, 9], ld_Width = 2, ld_Height = 2, TilesX = 1,
                 TilesY = 1, TileSize = 512, Compressed = True\<rparr>"
  let ?evs = "[Chunk header_bytes, Chunk [7, 8], Chunk [9], Chunk header_bytes, Chunk [7]]"
  let ?s1 = "\<lparr>conn = \<lparr>incoming = ?evs, write_results = [], outgoing = ?out\<rparr>, connected = True\<rparr>"
  let ?s2 = "?s1\<lparr>conn := (conn ?s1)\<lparr>incoming := [Chunk header_bytes, Chunk [7]]\<rparr>\<rparr>"
  let ?evs' = "[Chunk header_bytes, Chunk [7, 8], Chunk [9], Chunk header_bytes, Chunk [7],
                Chunk [8, 9]]"
  let ?t1 = "\<lparr>conn = \<lparr>incoming = ?evs', write_results = [], outgoing = ?out\<rparr>, connected = True\<rparr>"
  let ?t2 = "?t1\<lparr>conn := (conn ?t1)\<lparr>incoming := [Chunk header_bytes, Chunk [7], Chunk [8, 9]]\<rparr>\<rparr>"
  have layers: "scan_Layers ?req = [0] @ 1 # []" by simp
  have c: "connected (scanner_on ?evs)" by (simp add: scanner_on_def)
  have sent: "sendCommand CMD_SCAN (scan_command ?req) (scanner_on ?evs) = (None, ?s1)"
    by (simp add: sendCommand_def Write_def scanner_on_def)
  have whole: "read_data Never [Chunk [7, 8], Chunk [9], Chunk header_bytes, Chunk [7]] 3 []
      = (Inr [7, 8, 9], Never, [Chunk header_bytes, Chunk [7]])"
    by code_simp
  have first: "receive_layers [0] Never ?s1 [] = (Inr [?layer], Never, ?s2)"
    by (simp add: receiveLayerData_def header_bytes_def Let_def replicate_numeral_unfold)
       (simp add: whole [unfolded header_bytes_def])
  have broken: "layer_break Never (incoming (conn ?s2)) = Some EOF"
    by (simp add: header_bytes_def data_break_def)
  have c': "connected (scanner_on ?evs')" by (simp add: scanner_on_def)
  have sent': "sendCommand CMD_SCAN (scan_command ?req) (scanner_on ?evs') = (None, ?t1)"
    by (simp add: sendCommand_def Write_def scanner_on_def)
  have whole': "read_data (DoneAfter 3 Canceled)
        [Chunk [7, 8], Chunk [9], Chunk header_bytes, Chunk [7], Chunk [8, 9]] 3 []
      = (Inr [7, 8, 9], DoneAfter 1 Canceled, [Chunk header_bytes, Chunk [7], Chunk [8, 9]])"
    by code_simp
  have first': "receive_layers [0] (DoneAfter 3 Canceled) ?t1 []
      = (Inr [?layer], DoneAfter 1 Canceled, ?t2)"
    by (simp add: receiveLayerData_def header_bytes_def Let_def replicate_numeral_unfold)
       (simp add: whole' [unfolded header_bytes_def])
  have cancelled: "layer_break (DoneAfter 1 Canceled) (incoming (conn ?t2)) = Some Canceled"
    by (simp add: header_bytes_def data_break_def)
  from StartScan_aborts_on_broken_stream [OF c sent layers first broken, of 0]
    StartScan_aborts_on_broken_stream [OF c' sent' layers first' cancelled, of 0]
  show ?thesis by simp
qed

text \<open>
  The claim as the specification states it fails. The connection breaks after one byte
  of image data: the scan returns the error, and the scanner is still marked connected.
  The stream ends after 16 bytes of a header: the scan returns a result, a layer decoded
  from half a header. The context is done and the header announces no image data: the
  scan returns a result, the context being tested only before a read of image data.
\<close>

theorem StartScan_failure_stays_connected:
  "StartScan 0 Never \<lparr>StartX = 0, StartY = 0, scan_Width = 1, scan_Height = 1, scan_Layers = [0]\<rparr>
      (scanner_on [Chunk header_bytes, Chunk [7], Fail (NetError ''connection reset by peer'')])
   = (Inl (Wrapf ''failed to receive layer data'' (NetError ''connection reset by peer'')), Never,
      \<lparr>conn = \<lparr>incoming = [], write_results = [],
               outgoing = [3, 0, 0, 0, 24,  0, 0, 0, 0,  0, 0, 0, 0,  0, 0, 0, 1,  0, 0, 0, 1,
                           0, 0, 0, 1,  0, 0, 0, 0]\<rparr>,
       connected = True\<rparr>)
   \<and> fst (StartScan 0 Never
            \<lparr>StartX = 0, StartY = 0, scan_Width = 1, scan_Height = 1, scan_Layers = [0]\<rparr>
            (scanner_on [Chunk (take 16 header_bytes)]))
   = Inr \<lparr>res_SlideID = ''slide_0'', res_Timestamp = 0,
          res_Layers = [\<lparr>ld_Layer = 1, RawData = [], ld_Width = 2, ld_Height = 2, TilesX = 1,
                         TilesY = 0, TileSize = 0, Compressed = False\<rparr>]\<rparr>
   \<and> fst (StartScan 0 (DoneAfter 0 Canceled)
            \<lparr>StartX = 0, StartY = 0, scan_Width = 1, scan_Height = 1, scan_Layers = [0]\<rparr>
            (scanner_on [Chunk (replicate 32 0)]))
   = Inr \<lparr>res_SlideID = ''slide_0'', res_Timestamp = 0,
          res_Layers = [\<lparr>ld_Layer = 0, RawData = [], ld_Width = 0, ld_Height = 0, TilesX = 0,
                         TilesY = 0, TileSize = 0, Compressed = False\<rparr>]\<rparr>"
proof -
  have broken: "read_data Never [Chunk [7], Fail (NetError ''connection reset by peer'')] 3 []
      = (Inl (NetError ''connection reset by peer''), Never, [])"
    by code_simp
  have none: "read_data ctx evs 0 [] = (Inr [], ctx, evs)" for ctx evs
    by (subst read_data.simps) simp
  have slide: "formatInt 0 = ''0''" by code_simp
  have 1: "StartScan 0 Never \<lparr>StartX = 0, StartY = 0, scan_Width = 1, scan_Height = 1, scan_Layers = [0]\<rparr>
      (scanner_on [Chunk header_bytes, Chunk [7], Fail (NetError ''connection reset by peer'')])
   = (Inl (Wrapf ''failed to receive layer data'' (NetError ''connection reset by peer'')), Never,
      \<lparr>conn = \<lparr>incoming = [], write_results = [],
               outgoing = [3, 0, 0, 0, 24,  0, 0, 0, 0,  0, 0, 0, 0,  0, 0, 0, 1,  0, 0, 0, 1,
                           0, 0, 0, 1,  0, 0, 0, 0]\<rparr>,
       connected = True\<rparr>)"
    by (simp add: StartScan_def scan_command_def sendCommand_def Write_def scanner_on_def CMD_SCAN_def PutUint32_def
          receiveLayerData_def header_bytes_def Let_def broken)
  have 2: "fst (StartScan 0 Never
            \<lparr>StartX = 0, StartY = 0, scan_Width = 1, scan_Height = 1, scan_Layers = [0]\<rparr>
            (scanner_on [Chunk (take 16 header_bytes)]))
   = Inr \<lparr>res_SlideID = ''slide_0'', res_Timestamp = 0,
          res_Layers = [\<lparr>ld_Layer = 1, RawData = [], ld_Width = 2, ld_Height = 2, TilesX = 1,
                         TilesY = 0, TileSize = 0, Compressed = False\<rparr>]\<rparr>"
    by (simp add: StartScan_def sendCommand_def Write_def scanner_on_def
          receiveLayerData_def header_bytes_def Let_def none slide replicate_numeral_unfold)
  have 3: "fst (StartScan 0 (DoneAfter 0 Canceled)
            \<lparr>StartX = 0, StartY = 0, scan_Width = 1, scan_Height = 1, scan_Layers = [0]\<rparr>
            (scanner_on [Chunk (replicate 32 0)]))
   = Inr \<lparr>res_SlideID = ''slide_0'', res_Timestamp = 0,
          res_Layers = [\<lparr>ld_Layer = 0, RawData = [], ld_Width = 0, ld_Height = 0, TilesX = 0,
                         TilesY = 0, TileSize = 0, Compressed = False\<rparr>]\<rparr>"
    by (simp add: StartScan_def sendCommand_def Write_def scanner_on_def
          receiveLayerData_def Let_def none slide replicate_numeral_unfold)
  from 1 2 3 show ?thesis by (intro conjI)
qed


section \<open>The hit rate of the statistics endpoint\<close>

lemma system_stats_hitRate:
  "st_hitRate (system_stats c) = float64_div (hits c) (hits c + misses c)"
  by (simp add: system_stats_def Stats_def)

text \<open>
  C10 (as the code has it). The statistics handler divides the hits by the sum of hits
  and misses with no test for zero. For a cache whose counters are both zero, such as a
  new one, the rate it computes is NaN, where \<^verbatim>\<open>TileCache.HitRate\<close> returns 0; the
  JSON encoder refuses NaN, so no hit rate is reported: the reply has no body. Whenever
  the sum of hits and misses is not zero the reply carries the counters, the size, the
  number of tiles and the rate hits / (hits + misses), the rate that \<^verbatim>\<open>HitRate\<close>
  returns.
\<close>

theorem handleSystemStats_empty_reply:
  "handleSystemStats uptime c =
     (if hits c + misses c = 0 then EmptyBody
      else StatsBody \<lparr>st_hits = hits c, st_misses = misses c,
                       st_hitRate = Finite (real (unat (hits c)) / real (unat (hits c + misses c))),
                       st_size = currentSize c, st_tiles = length (lru c)\<rparr> uptime)
   \<and> HitRate c =
     (if hits c + misses c = 0 then Finite 0
      else Finite (real (unat (hits c)) / real (unat (hits c + misses c))))
   \<and> st_hitRate (system_stats (c\<lparr>hits := 0, misses := 0\<rparr>)) = NaN
   \<and> HitRate (c\<lparr>hits := 0, misses := 0\<rparr>) = Finite 0"
proof -
  have 1: "handleSystemStats uptime c = EmptyBody" if "hits c + misses c = 0"
    using that by (simp add: handleSystemStats_def system_stats_hitRate float64_div_def)
  have 2: "handleSystemStats uptime c =
      StatsBody \<lparr>st_hits = hits c, st_misses = misses c,
                 st_hitRate = Finite (real (unat (hits c)) / real (unat (hits c + misses c))),
                 st_size = currentSize c, st_tiles = length (lru c)\<rparr> uptime"
    if "hits c + misses c \<noteq> 0"
    using that
    by (simp add: handleSystemStats_def system_stats_hitRate float64_div_def)
       (simp add: system_stats_def Stats_def float64_div_def)
  have 3: "HitRate c =
     (if hits c + misses c = 0 then Finite 0
      else Finite (real (unat (hits c)) / real (unat (hits c + misses c))))"
    by (simp add: HitRate_def float64_div_def Let_def)
  have 4: "st_hitRate (system_stats (c\<lparr>hits := 0, misses := 0\<rparr>)) = NaN"
    by (simp add: system_stats_hitRate float64_div_def)
  have 5: "HitRate (c\<lparr>hits := 0, misses := 0\<rparr>) = Finite 0"
    by (simp add: HitRate_def)
  from 1 2 3 4 5 show ?thesis by simp
qed

text \<open>
  The claim as the specification states it fails: for a new cache the endpoint reports
  no hit rate, NaN or other; its reply is empty.
\<close>

theorem handleSystemStats_reports_nothing:
  "handleSystemStats ''1h0m0s'' (NewTileCache 1024) = EmptyBody
   \<and> st_hitRate (system_stats (NewTileCache 1024)) = NaN"
  by (simp add: handleSystemStats_def system_stats_def Stats_def float64_div_def NewTileCache_def)

end
